theory Spec2Isabelle
  imports Complex_Main "HOL-Library.Sublist" "HOL-Library.Log_Nat"
begin

section \<open>JavaScript values used by the retrieval kernel\<close>

text \<open>
  A JavaScript string is a sequence of code units; it is modelled as a \<^typ>\<open>string\<close>, one
  \<^typ>\<open>char\<close> per code unit (the Latin-1 range). Numbers that the code uses as sizes,
  offsets and counts are \<^typ>\<open>int\<close>; embedding components and scores are doubles, the type
  \<open>number\<close> below.
\<close>

text \<open>\<^verbatim>\<open>Array.prototype.slice\<close> and \<^verbatim>\<open>String.prototype.slice\<close>: a negative index counts
  from the end, and both indices are clamped to the length.\<close>

definition relIndex :: "int \<Rightarrow> nat \<Rightarrow> nat" where
  "relIndex k n = (if k < 0 then nat (max (int n + k) 0) else min (nat k) n)"

definition slice :: "'a list \<Rightarrow> int \<Rightarrow> int \<Rightarrow> 'a list" where
  "slice xs s e = (let n = length xs; from = relIndex s n; to = relIndex e n
                   in take (to - from) (drop from xs))"

definition sliceFrom :: "'a list \<Rightarrow> int \<Rightarrow> 'a list" where
  "sliceFrom xs s = drop (relIndex s (length xs)) xs"

text \<open>The characters removed by \<^verbatim>\<open>String.prototype.trim\<close> and matched by the regular
  expression class \<^verbatim>\<open>\s\<close>: tab, line feed, vertical tab, form feed, carriage return, space
  and no-break space.\<close>

definition isWhitespace :: "char \<Rightarrow> bool" where
  "isWhitespace c = (of_char c \<in> {9, 10, 11, 12, 13, 32, 160 :: nat})"

definition trim :: "string \<Rightarrow> string" where
  "trim s = rev (dropWhile isWhitespace (rev (dropWhile isWhitespace s)))"

text \<open>A JavaScript \<^verbatim>\<open>Map\<close> iterates in insertion order: \<^verbatim>\<open>set\<close> on a present key replaces
  the value where it stands, \<^verbatim>\<open>set\<close> on a new key appends, \<^verbatim>\<open>delete\<close> removes the entry.\<close>

fun Map_set :: "('k \<times> 'v) list \<Rightarrow> 'k \<Rightarrow> 'v \<Rightarrow> ('k \<times> 'v) list" where
  "Map_set [] k v = [(k, v)]"
| "Map_set ((k', v') # m) k v = (if k' = k then (k, v) # m else (k', v') # Map_set m k v)"

definition Map_delete :: "('k \<times> 'v) list \<Rightarrow> 'k \<Rightarrow> ('k \<times> 'v) list" where
  "Map_delete m k = filter (\<lambda>kv. fst kv \<noteq> k) m"

definition Map_has :: "('k \<times> 'v) list \<Rightarrow> 'k \<Rightarrow> bool" where
  "Map_has m k = (k \<in> fst ` set m)"

definition Map_get :: "('k \<times> 'v) list \<Rightarrow> 'k \<Rightarrow> 'v option" where
  "Map_get m k = map_of m k"

definition Map_values :: "('k \<times> 'v) list \<Rightarrow> 'v list" where
  "Map_values m = map snd m"

definition Map_size :: "('k \<times> 'v) list \<Rightarrow> int" where
  "Map_size m = int (length m)"

section \<open>Numbers: IEEE double arithmetic\<close>

text \<open>
  A JavaScript number is a finite double, an infinity or \<^verbatim>\<open>NaN\<close>. An operation on finite
  numbers rounds the exact result to the nearest double, ties to even, with 53 significant
  bits down to the spacing \<open>2 ^ - 1074\<close> of the subnormal numbers, and gives an infinity
  from \<open>2 ^ 1024\<close> on. The two zeros are one value here: the functions below never
  divide by a negative zero, and \<^verbatim>\<open>===\<close> and the comparisons do not tell them apart.
\<close>

datatype number = Fin real | PInf | NInf | NaN

definition roundHalfEven :: "real \<Rightarrow> int" where
  "roundHalfEven k =
     (let f = \<lfloor>k\<rfloor>; d = k - of_int f
      in if d < 1 / 2 then f else if d > 1 / 2 then f + 1 else if even f then f else f + 1)"

text \<open>The spacing of the doubles around \<open>z\<close>.\<close>

definition ulp :: "real \<Rightarrow> real" where
  "ulp z = 2 ^ nat (bitlen \<lfloor>\<bar>z\<bar> * 2 ^ 1022\<rfloor> - 1) / 2 ^ 1074"

definition fl :: "real \<Rightarrow> number" where
  "fl z =
     (if z = 0 then Fin 0
      else let y = of_int (roundHalfEven (z / ulp z)) * ulp z
           in if \<bar>y\<bar> \<ge> 2 ^ 1024 then (if z > 0 then PInf else NInf) else Fin y)"

text \<open>The operators \<^verbatim>\<open>-x\<close>, \<^verbatim>\<open>+\<close>, \<^verbatim>\<open>-\<close>, \<^verbatim>\<open>*\<close>, \<^verbatim>\<open>/\<close>, \<^verbatim>\<open>Math.sqrt\<close>, \<^verbatim>\<open><\<close>,
  \<^verbatim>\<open>===\<close>, \<^verbatim>\<open>>\<close> and \<^verbatim>\<open>>=\<close>.\<close>

fun jsNeg :: "number \<Rightarrow> number" where
  "jsNeg (Fin x) = Fin (- x)"
| "jsNeg PInf = NInf"
| "jsNeg NInf = PInf"
| "jsNeg NaN = NaN"

fun jsAdd :: "number \<Rightarrow> number \<Rightarrow> number" where
  "jsAdd (Fin x) (Fin y) = fl (x + y)"
| "jsAdd NaN b = NaN"
| "jsAdd a NaN = NaN"
| "jsAdd PInf NInf = NaN"
| "jsAdd NInf PInf = NaN"
| "jsAdd PInf b = PInf"
| "jsAdd a PInf = PInf"
| "jsAdd NInf b = NInf"
| "jsAdd a NInf = NInf"

definition jsSub :: "number \<Rightarrow> number \<Rightarrow> number" where
  "jsSub a b = jsAdd a (jsNeg b)"

fun jsMul :: "number \<Rightarrow> number \<Rightarrow> number" where
  "jsMul (Fin x) (Fin y) = fl (x * y)"
| "jsMul NaN b = NaN"
| "jsMul a NaN = NaN"
| "jsMul (Fin x) PInf = (if x = 0 then NaN else if x > 0 then PInf else NInf)"
| "jsMul (Fin x) NInf = (if x = 0 then NaN else if x > 0 then NInf else PInf)"
| "jsMul PInf (Fin y) = (if y = 0 then NaN else if y > 0 then PInf else NInf)"
| "jsMul NInf (Fin y) = (if y = 0 then NaN else if y > 0 then NInf else PInf)"
| "jsMul PInf PInf = PInf"
| "jsMul NInf NInf = PInf"
| "jsMul PInf NInf = NInf"
| "jsMul NInf PInf = NInf"

fun jsDiv :: "number \<Rightarrow> number \<Rightarrow> number" where
  "jsDiv (Fin x) (Fin y) =
     (if y = 0 then (if x = 0 then NaN else if x > 0 then PInf else NInf) else fl (x / y))"
| "jsDiv NaN b = NaN"
| "jsDiv a NaN = NaN"
| "jsDiv (Fin x) PInf = Fin 0"
| "jsDiv (Fin x) NInf = Fin 0"
| "jsDiv PInf (Fin y) = (if y \<ge> 0 then PInf else NInf)"
| "jsDiv NInf (Fin y) = (if y \<ge> 0 then NInf else PInf)"
| "jsDiv PInf PInf = NaN"
| "jsDiv PInf NInf = NaN"
| "jsDiv NInf PInf = NaN"
| "jsDiv NInf NInf = NaN"

fun jsSqrt :: "number \<Rightarrow> number" where
  "jsSqrt (Fin x) = (if x < 0 then NaN else fl (sqrt x))"
| "jsSqrt PInf = PInf"
| "jsSqrt NInf = NaN"
| "jsSqrt NaN = NaN"

fun jsLt :: "number \<Rightarrow> number \<Rightarrow> bool" where
  "jsLt (Fin x) (Fin y) = (x < y)"
| "jsLt NaN b = False"
| "jsLt a NaN = False"
| "jsLt PInf b = False"
| "jsLt a NInf = False"
| "jsLt a PInf = True"
| "jsLt NInf b = True"

fun jsEq :: "number \<Rightarrow> number \<Rightarrow> bool" where
  "jsEq NaN b = False"
| "jsEq a NaN = False"
| "jsEq a b = (a = b)"

definition jsGt :: "number \<Rightarrow> number \<Rightarrow> bool" where
  "jsGt a b = jsLt b a"

definition jsGe :: "number \<Rightarrow> number \<Rightarrow> bool" where
  "jsGe a b = (jsLt b a \<or> jsEq a b)"

text \<open>Every finite double is a multiple of \<open>2 ^ - 1074\<close>; \<open>isDouble\<close> holds of every value
  that the operations return.\<close>

definition onGrid :: "real \<Rightarrow> bool" where
  "onGrid y = (\<exists>n::int. y = of_int n / 2 ^ 1074)"

fun isDouble :: "number \<Rightarrow> bool" where
  "isDouble (Fin y) = onGrid y"
| "isDouble a = True"

text \<open>\<^verbatim>\<open>Array.prototype.sort\<close> with a comparison function. A result that is \<^verbatim>\<open>NaN\<close> counts
  as zero. When the function is a consistent comparator for the elements (the conditions of
  the language standard), the result is the stable sort, computed here by insertion;
  otherwise the order is left to the engine, the argument \<open>engineOrder\<close>.\<close>

fun insertSorted :: "('a \<Rightarrow> 'a \<Rightarrow> number) \<Rightarrow> 'a \<Rightarrow> 'a list \<Rightarrow> 'a list" where
  "insertSorted cmp x [] = [x]"
| "insertSorted cmp x (y # ys) =
     (if jsGt (cmp x y) (Fin 0) then y # insertSorted cmp x ys else x # y # ys)"

definition stableSort :: "('a \<Rightarrow> 'a \<Rightarrow> number) \<Rightarrow> 'a list \<Rightarrow> 'a list" where
  "stableSort cmp xs = foldr (insertSorted cmp) xs []"

definition sortsBefore :: "('a \<Rightarrow> 'a \<Rightarrow> number) \<Rightarrow> 'a \<Rightarrow> 'a \<Rightarrow> bool" where
  "sortsBefore cmp a b = jsLt (cmp a b) (Fin 0)"

definition sortsAfter :: "('a \<Rightarrow> 'a \<Rightarrow> number) \<Rightarrow> 'a \<Rightarrow> 'a \<Rightarrow> bool" where
  "sortsAfter cmp a b = jsGt (cmp a b) (Fin 0)"

definition sortsSame :: "('a \<Rightarrow> 'a \<Rightarrow> number) \<Rightarrow> 'a \<Rightarrow> 'a \<Rightarrow> bool" where
  "sortsSame cmp a b = (\<not> sortsBefore cmp a b \<and> \<not> sortsAfter cmp a b)"

definition consistentComparator :: "('a \<Rightarrow> 'a \<Rightarrow> number) \<Rightarrow> 'a list \<Rightarrow> bool" where
  "consistentComparator cmp xs =
     (\<forall>a \<in> set xs. sortsSame cmp a a \<and>
        (\<forall>b \<in> set xs. (sortsSame cmp a b \<longrightarrow> sortsSame cmp b a) \<and>
           (\<forall>c \<in> set xs.
              (sortsSame cmp a b \<and> sortsSame cmp b c \<longrightarrow> sortsSame cmp a c) \<and>
              (sortsBefore cmp a b \<and> sortsBefore cmp b c \<longrightarrow> sortsBefore cmp a c) \<and>
              (sortsAfter cmp a b \<and> sortsAfter cmp b c \<longrightarrow> sortsAfter cmp a c))))"

definition arraySort :: "('a \<Rightarrow> 'a \<Rightarrow> number) \<Rightarrow> ('a list \<Rightarrow> 'a list) \<Rightarrow> 'a list \<Rightarrow> 'a list" where
  "arraySort cmp engineOrder xs =
     (if consistentComparator cmp xs then stableSort cmp xs else engineOrder xs)"

section \<open>Embeddings: similarity functions\<close>

datatype error =
    EmbeddingDimensionsMismatch int int
  | QueryDimensionsMismatch int int
  | EmbeddingsMustHaveSameDimensions
  | ProviderError string

text \<open>The loops add the products in the order of the indices, each step a rounded
  operation.\<close>

definition cosineSimilarity :: "number list \<Rightarrow> number list \<Rightarrow> error + number" where
  "cosineSimilarity a b =
     (if length a \<noteq> length b then Inl EmbeddingsMustHaveSameDimensions
      else let dotProduct = foldl (\<lambda>acc (x, y). jsAdd acc (jsMul x y)) (Fin 0) (zip a b);
               magnitudeA = jsSqrt (foldl (\<lambda>acc x. jsAdd acc (jsMul x x)) (Fin 0) a);
               magnitudeB = jsSqrt (foldl (\<lambda>acc y. jsAdd acc (jsMul y y)) (Fin 0) b)
           in if jsEq magnitudeA (Fin 0) \<or> jsEq magnitudeB (Fin 0) then Inr (Fin 0)
              else Inr (jsDiv dotProduct (jsMul magnitudeA magnitudeB)))"

definition euclideanDistance :: "number list \<Rightarrow> number list \<Rightarrow> error + number" where
  "euclideanDistance a b =
     (if length a \<noteq> length b then Inl EmbeddingsMustHaveSameDimensions
      else Inr (jsSqrt (foldl (\<lambda>acc (x, y). jsAdd acc (jsMul (jsSub x y) (jsSub x y)))
                          (Fin 0) (zip a b))))"

section \<open>Vector store\<close>

text \<open>A metadata value is kept as its rendering in a template string; \<open>None\<close> stands for
  \<^verbatim>\<open>undefined\<close>. \<open>createdAt\<close> is the time value of the \<^verbatim>\<open>Date\<close> in milliseconds.\<close>

type_synonym Metadata = "(string \<times> string option) list"

record DocumentInput =
  doc_id :: string
  doc_content :: string
  embedding :: "number list"
  doc_metadata :: "Metadata option"

record VectorDocument = DocumentInput +
  createdAt :: int

record SearchResult =
  document :: VectorDocument
  score :: number
  distance :: "number option"

datatype SimilarityMetric = cosine | euclidean

record VectorStoreConfig =
  dimensions :: int
  similarityMetric :: SimilarityMetric
  maxDocuments :: "int option"

record PartialVectorStoreConfig =
  p_dimensions :: "int option"
  p_similarityMetric :: "SimilarityMetric option"
  p_maxDocuments :: "int option"

record InMemoryVectorStore =
  documents :: "(string \<times> VectorDocument) list"
  config :: VectorStoreConfig

text \<open>The constructor: \<^verbatim>\<open>config.dimensions || 1536\<close> also replaces a zero.\<close>

definition newStore :: "PartialVectorStoreConfig \<Rightarrow> InMemoryVectorStore" where
  "newStore c =
     \<lparr>documents = [],
      config = \<lparr>dimensions = (case p_dimensions c of None \<Rightarrow> 1536
                                | Some d \<Rightarrow> if d = 0 then 1536 else d),
                similarityMetric = (case p_similarityMetric c of None \<Rightarrow> cosine | Some m \<Rightarrow> m),
                maxDocuments = p_maxDocuments c\<rparr>\<rparr>"

definition stamp :: "DocumentInput \<Rightarrow> int \<Rightarrow> VectorDocument" where
  "stamp doc now = \<lparr>doc_id = doc_id doc, doc_content = doc_content doc,
                    embedding = embedding doc, doc_metadata = doc_metadata doc,
                    createdAt = now\<rparr>"

text \<open>\<^verbatim>\<open>this.config.maxDocuments && this.documents.size >= this.config.maxDocuments\<close>:
  an absent or zero limit is falsy.\<close>

definition atCapacity :: "InMemoryVectorStore \<Rightarrow> bool" where
  "atCapacity st = (case maxDocuments (config st) of
                      None \<Rightarrow> False
                    | Some n \<Rightarrow> n \<noteq> 0 \<and> Map_size (documents st) \<ge> n)"

text \<open>\<open>add\<close> reads the clock once (\<^verbatim>\<open>new Date()\<close>); the reading is the argument \<open>now\<close>.
  The sort of the values by \<open>createdAt\<close> is stable, as \<^verbatim>\<open>Array.prototype.sort\<close> is.\<close>

definition evictOldest :: "(string \<times> VectorDocument) list \<Rightarrow> (string \<times> VectorDocument) list" where
  "evictOldest docs = (case sort_key createdAt (Map_values docs) of
                         [] \<Rightarrow> docs
                       | oldest # _ \<Rightarrow> Map_delete docs (doc_id oldest))"

definition add :: "InMemoryVectorStore \<Rightarrow> int \<Rightarrow> DocumentInput \<Rightarrow> error + InMemoryVectorStore" where
  "add st now doc =
     (if int (length (embedding doc)) \<noteq> dimensions (config st)
      then Inl (EmbeddingDimensionsMismatch (dimensions (config st)) (int (length (embedding doc))))
      else let docs = (if atCapacity st then evictOldest (documents st) else documents st)
           in Inr (st\<lparr>documents := Map_set docs (doc_id doc) (stamp doc now)\<rparr>))"

text \<open>\<open>addBatch\<close> stops at the first failing \<open>add\<close>; the documents added before it stay
  in the store, so the store is returned next to the error.\<close>

fun addBatch :: "InMemoryVectorStore \<Rightarrow> (int \<times> DocumentInput) list
                 \<Rightarrow> InMemoryVectorStore \<times> error option" where
  "addBatch st [] = (st, None)"
| "addBatch st ((now, doc) # rest) =
     (case add st now doc of Inl e \<Rightarrow> (st, Some e) | Inr st' \<Rightarrow> addBatch st' rest)"

definition scoreOf :: "SimilarityMetric \<Rightarrow> number list \<Rightarrow> VectorDocument \<Rightarrow> error + SearchResult" where
  "scoreOf metric query doc =
     (if metric = cosine
      then (case cosineSimilarity query (embedding doc) of
              Inl e \<Rightarrow> Inl e
            | Inr s \<Rightarrow> Inr \<lparr>document = doc, score = s, distance = None\<rparr>)
      else (case euclideanDistance query (embedding doc) of
              Inl e \<Rightarrow> Inl e
            | Inr d \<Rightarrow> Inr \<lparr>document = doc, score = jsDiv (Fin 1) (jsAdd (Fin 1) d), distance = Some d\<rparr>))"

fun searchLoop :: "SimilarityMetric \<Rightarrow> number list \<Rightarrow> (VectorDocument \<Rightarrow> bool) option
                   \<Rightarrow> VectorDocument list \<Rightarrow> SearchResult list \<Rightarrow> error + SearchResult list" where
  "searchLoop metric query flt [] results = Inr results"
| "searchLoop metric query flt (doc # docs) results =
     (if (case flt of None \<Rightarrow> False | Some f \<Rightarrow> \<not> f doc)
      then searchLoop metric query flt docs results
      else (case scoreOf metric query doc of
              Inl e \<Rightarrow> Inl e
            | Inr r \<Rightarrow> searchLoop metric query flt docs (results @ [r])))"

text \<open>The comparison function of the sort, \<^verbatim>\<open>(a, b) => b.score - a.score\<close>.\<close>

definition byScoreDescending :: "SearchResult \<Rightarrow> SearchResult \<Rightarrow> number" where
  "byScoreDescending a b = jsSub (score b) (score a)"

definition search :: "(SearchResult list \<Rightarrow> SearchResult list) \<Rightarrow> InMemoryVectorStore \<Rightarrow> number list
                      \<Rightarrow> int \<Rightarrow> (VectorDocument \<Rightarrow> bool) option \<Rightarrow> error + SearchResult list" where
  "search engineOrder st query topK flt =
     (if int (length query) \<noteq> dimensions (config st)
      then Inl (QueryDimensionsMismatch (dimensions (config st)) (int (length query)))
      else (case searchLoop (similarityMetric (config st)) query flt
                   (Map_values (documents st)) [] of
              Inl e \<Rightarrow> Inl e
            | Inr results \<Rightarrow>
                Inr (slice (arraySort byScoreDescending engineOrder results) 0 topK)))"

definition get :: "InMemoryVectorStore \<Rightarrow> string \<Rightarrow> VectorDocument option" where
  "get st i = Map_get (documents st) i"

definition delete :: "InMemoryVectorStore \<Rightarrow> string \<Rightarrow> InMemoryVectorStore \<times> bool" where
  "delete st i = (st\<lparr>documents := Map_delete (documents st) i\<rparr>, Map_has (documents st) i)"

definition clear :: "InMemoryVectorStore \<Rightarrow> InMemoryVectorStore" where
  "clear st = st\<lparr>documents := []\<rparr>"

definition size_store :: "InMemoryVectorStore \<Rightarrow> int" where
  "size_store st = Map_size (documents st)"

definition export :: "InMemoryVectorStore \<Rightarrow> VectorDocument list" where
  "export st = Map_values (documents st)"

definition import :: "InMemoryVectorStore \<Rightarrow> VectorDocument list \<Rightarrow> InMemoryVectorStore" where
  "import st docs = st\<lparr>documents := fold (\<lambda>doc m. Map_set m (doc_id doc) doc) docs (documents st)\<rparr>"

text \<open>Every entry of the map is stored under the id of its document, once: \<open>add\<close> and
  \<open>import\<close> are the only writers, and both use \<^verbatim>\<open>doc.id\<close> as the key.\<close>

definition keyedById :: "(string \<times> VectorDocument) list \<Rightarrow> bool" where
  "keyedById m = (distinct (map fst m) \<and> list_all (\<lambda>kv. fst kv = doc_id (snd kv)) m)"

section \<open>Retrieval\<close>

record RetrievalConfig =
  topK :: int
  minScore :: number
  maxContextLength :: int
  includeMetadata :: bool







definition newline :: string where
  "newline = [CHR 0x0A]"







section \<open>Chunker\<close>

record ChunkConfig =
  maxChunkSize :: int
  chunkOverlap :: int
  separators :: "string list"
  preserveStructure :: bool

record TextChunk =
  content :: string
  index :: int
  startOffset :: int
  endOffset :: int
  metadata :: "Metadata option"

definition defaultConfig :: ChunkConfig where
  "defaultConfig =
     \<lparr>maxChunkSize = 1000, chunkOverlap = 200,
      separators = [newline @ newline, newline, ''. '', '', '', '' ''],
      preserveStructure = True\<rparr>"

text \<open>\<^verbatim>\<open>String.prototype.split\<close> with a string separator: the pieces between the
  occurrences of the separator, found from the left without overlap; the empty separator
  splits into single code units.\<close>

fun splitAux :: "string \<Rightarrow> string \<Rightarrow> string \<Rightarrow> string list" where
  "splitAux sep acc [] = [acc]"
| "splitAux sep acc (c # cs) =
     (if take (length sep) (c # cs) = sep
      then acc # splitAux sep [] (drop (length sep - 1) cs)
      else splitAux sep (acc @ [c]) cs)"

definition splitOn :: "string \<Rightarrow> string \<Rightarrow> string list" where
  "splitOn text sep = (if sep = [] then map (\<lambda>c. [c]) text else splitAux sep [] text)"

text \<open>The hard split: \<^verbatim>\<open>for (let i = 0; i < text.length; i += maxChunkSize - chunkOverlap)\<close>.
  With a stride that is not positive the loop never ends; this is the value \<open>None\<close>.\<close>

partial_function (option) hardSplit :: "ChunkConfig \<Rightarrow> string \<Rightarrow> int \<Rightarrow> string list
                                        \<Rightarrow> string list option" where
  "hardSplit cfg text i result =
     (if i < int (length text)
      then hardSplit cfg text (i + (maxChunkSize cfg - chunkOverlap cfg))
             (result @ [slice text i (i + maxChunkSize cfg)])
      else Some result)"

declare hardSplit.simps [code]

text \<open>The loop over the parts of one split. \<open>recurse\<close> is \<open>splitRecursively\<close> with the
  remaining separators. An empty \<open>current\<close> is falsy.\<close>

fun accumulate :: "ChunkConfig \<Rightarrow> string \<Rightarrow> (string \<Rightarrow> string list option) \<Rightarrow> string list
                   \<Rightarrow> string list \<Rightarrow> string \<Rightarrow> string list option" where
  "accumulate cfg separator recurse [] result current =
     Some (if current \<noteq> [] then result @ [current] else result)"
| "accumulate cfg separator recurse (part # parts) result current =
     (let potentialChunk = (if current \<noteq> [] then current @ separator @ part else part)
      in if int (length potentialChunk) \<le> maxChunkSize cfg
         then accumulate cfg separator recurse parts result potentialChunk
         else (let result1 = (if current \<noteq> [] then result @ [current] else result)
               in if int (length part) > maxChunkSize cfg
                  then (case recurse part of
                          None \<Rightarrow> None
                        | Some subChunks \<Rightarrow>
                            accumulate cfg separator recurse parts (result1 @ subChunks) [])
                  else accumulate cfg separator recurse parts result1 part))"

primrec splitRecursively :: "ChunkConfig \<Rightarrow> string list \<Rightarrow> string \<Rightarrow> string list option" where
  "splitRecursively cfg [] text =
     (if int (length text) \<le> maxChunkSize cfg then Some [text]
      else hardSplit cfg text 0 [])"
| "splitRecursively cfg (separator # rest) text =
     (if int (length text) \<le> maxChunkSize cfg then Some [text]
      else accumulate cfg separator (splitRecursively cfg rest) (splitOn text separator) [] [])"

text \<open>The loop that adds the overlap: \<open>prev\<close> is \<^verbatim>\<open>rawChunks[i - 1]\<close> (absent for
  \<open>i = 0\<close>), and the offsets count the raw chunks only.\<close>

fun buildChunks :: "ChunkConfig \<Rightarrow> string option \<Rightarrow> int \<Rightarrow> int \<Rightarrow> string list \<Rightarrow> TextChunk list" where
  "buildChunks cfg prev i currentOffset [] = []"
| "buildChunks cfg prev i currentOffset (raw # rest) =
     (let c = (case prev of
                 None \<Rightarrow> raw
               | Some prevChunk \<Rightarrow>
                   if chunkOverlap cfg > 0 then sliceFrom prevChunk (- chunkOverlap cfg) @ raw
                   else raw);
          startOffset' = currentOffset;
          currentOffset' = currentOffset + int (length raw)
      in \<lparr>content = trim c, index = i, startOffset = startOffset', endOffset = currentOffset',
          metadata = None\<rparr>
         # buildChunks cfg (Some raw) (i + 1) currentOffset' rest)"

text \<open>\<open>chunkText\<close> with the merged configuration. \<open>None\<close>: the call does not return.\<close>

definition chunkText :: "string \<Rightarrow> ChunkConfig \<Rightarrow> TextChunk list option" where
  "chunkText text cfg =
     (case splitRecursively cfg (separators cfg) text of
        None \<Rightarrow> None
      | Some rawChunks \<Rightarrow>
          Some (filter (\<lambda>c. length (content c) > 0) (buildChunks cfg None 0 0 rawChunks)))"

text \<open>The configuration the specification calls valid.\<close>

definition validConfig :: "ChunkConfig \<Rightarrow> bool" where
  "validConfig cfg = (0 \<le> chunkOverlap cfg \<and> chunkOverlap cfg < maxChunkSize cfg \<and> 0 < maxChunkSize cfg)"

fun mergeLoop :: "int \<Rightarrow> TextChunk list \<Rightarrow> TextChunk list \<Rightarrow> TextChunk option
                  \<Rightarrow> TextChunk list \<times> TextChunk option" where
  "mergeLoop minSize [] merged current = (merged, current)"
| "mergeLoop minSize (chunk # chunks) merged None = mergeLoop minSize chunks merged (Some chunk)"
| "mergeLoop minSize (chunk # chunks) merged (Some cur) =
     (if int (length (content cur)) < minSize
      then mergeLoop minSize chunks merged
             (Some (cur\<lparr>content := content cur @ newline @ newline @ content chunk,
                        endOffset := endOffset chunk\<rparr>))
      else mergeLoop minSize chunks (merged @ [cur])
             (Some (chunk\<lparr>index := int (length merged) + 1\<rparr>)))"

definition mergeSmallChunks :: "TextChunk list \<Rightarrow> int \<Rightarrow> TextChunk list" where
  "mergeSmallChunks chunks minSize =
     (case mergeLoop minSize chunks [] None of
        (merged, None) \<Rightarrow> merged
      | (merged, Some cur) \<Rightarrow> merged @ [cur\<lparr>index := int (length merged)\<rparr>])"

section \<open>Token estimator\<close>

text \<open>\<^verbatim>\<open>text.split(/\s+/)\<close>: the pieces between the maximal runs of whitespace.\<close>

function splitWhitespace :: "string \<Rightarrow> string \<Rightarrow> string list" where
  "splitWhitespace acc [] = [acc]"
| "splitWhitespace acc (c # cs) =
     (if isWhitespace c then acc # splitWhitespace [] (dropWhile isWhitespace cs)
      else splitWhitespace (acc @ [c]) cs)"
  by pat_completeness auto
termination
  by (relation "measure (\<lambda>(acc, s). length s)")
     (auto simp: length_dropWhile_le less_Suc_eq_le)

definition isPunctuation :: "char \<Rightarrow> bool" where
  "isPunctuation c = (c \<in> set ''.,!?;:()[]{}'' \<or> of_char c \<in> {34, 39 :: nat})"

text \<open>\<open>tokens\<close> is a multiple of one half; \<open>count\<close> rounds it up.\<close>

definition gpt_count :: "string \<Rightarrow> int" where
  "gpt_count text =
     (let words = splitWhitespace [] text;
          tokens = of_nat (length words)
                   + of_nat (length (filter isPunctuation text)) * (1 / 2 :: rat)
                   + of_nat (\<Sum>w \<leftarrow> words. if length w > 10 then length w div 5 else 0)
      in \<lceil>tokens\<rceil>)"

text \<open>\<^verbatim>\<open>String.prototype.lastIndexOf\<close>: the last position where the pattern starts,
  or \<open>-1\<close>.\<close>

fun lastIndexFrom :: "string \<Rightarrow> string \<Rightarrow> nat \<Rightarrow> int" where
  "lastIndexFrom s pat 0 = (if take (length pat) s = pat then 0 else - 1)"
| "lastIndexFrom s pat (Suc i) =
     (if take (length pat) (drop (Suc i) s) = pat then int (Suc i) else lastIndexFrom s pat i)"

definition lastIndexOf :: "string \<Rightarrow> string \<Rightarrow> int" where
  "lastIndexOf s pat = lastIndexFrom s pat (length s)"

text \<open>The double that the literal \<^verbatim>\<open>0.7\<close> denotes.\<close>

definition pointSeven :: number where
  "pointSeven = Fin (6305039478318694 / 2 ^ 53)"

function bisect :: "string \<Rightarrow> int \<Rightarrow> int \<Rightarrow> int \<Rightarrow> int" where
  "bisect text maxTokens low high =
     (if high - low > 10
      then (let mid = (low + high) div 2
            in if gpt_count (slice text 0 mid) \<le> maxTokens
               then bisect text maxTokens mid high
               else bisect text maxTokens low mid)
      else low)"
  by pat_completeness auto
termination
  by (relation "measure (\<lambda>(text, maxTokens, low, high). nat (high - low))") auto

definition gpt_truncate :: "string \<Rightarrow> int \<Rightarrow> string" where
  "gpt_truncate text maxTokens =
     (if gpt_count text \<le> maxTokens then text
      else (let low = bisect text maxTokens 0 (int (length text));
                truncated = slice text 0 low;
                lastSentence = lastIndexOf truncated ''. ''
            in trim (if jsGt (Fin (of_int lastSentence)) (jsMul (Fin (of_int low)) pointSeven)
                     then slice truncated 0 (lastSentence + 1)
                     else truncated)))"

text \<open>The loop of \<open>split\<close>; \<open>None\<close>: it never leaves the loop.\<close>

partial_function (option) splitLoop :: "int \<Rightarrow> string \<Rightarrow> string list \<Rightarrow> string list option" where
  "splitLoop maxTokens remaining parts =
     (if length remaining > 0
      then (if gpt_count remaining \<le> maxTokens then Some (parts @ [remaining])
            else (let truncated = gpt_truncate remaining maxTokens
                  in splitLoop maxTokens
                       (trim (sliceFrom remaining (int (length truncated))))
                       (parts @ [truncated])))
      else Some parts)"

declare splitLoop.simps [code]

definition gpt_split :: "string \<Rightarrow> int \<Rightarrow> string list option" where
  "gpt_split text maxTokens = splitLoop maxTokens text []"

section \<open>Example values\<close>

definition docA :: VectorDocument where
  "docA = \<lparr>doc_id = ''a'', doc_content = ''alpha'', embedding = [Fin 1], doc_metadata = None,
            createdAt = 1\<rparr>"

definition docB :: VectorDocument where
  "docB = \<lparr>doc_id = ''b'', doc_content = ''beta'', embedding = [Fin 1], doc_metadata = None,
            createdAt = 2\<rparr>"

definition inputB :: DocumentInput where
  "inputB = \<lparr>doc_id = ''b'', doc_content = ''gamma'', embedding = [Fin 2], doc_metadata = None\<rparr>"

definition fullStore :: InMemoryVectorStore where
  "fullStore = \<lparr>documents = [(''a'', docA), (''b'', docB)],
                 config = \<lparr>dimensions = 1, similarityMetric = cosine, maxDocuments = Some 2\<rparr>\<rparr>"

definition limitedStore :: InMemoryVectorStore where
  "limitedStore = \<lparr>documents = [],
                    config = \<lparr>dimensions = 3, similarityMetric = cosine, maxDocuments = Some 2\<rparr>\<rparr>"

definition threeAdds :: "(int \<times> DocumentInput) list" where
  "threeAdds =
     [(1, \<lparr>doc_id = ''doc1'', doc_content = ''Test 1'', embedding = [Fin 1, Fin 2, Fin 3], doc_metadata = None\<rparr>),
      (1, \<lparr>doc_id = ''doc2'', doc_content = ''Test 2'', embedding = [Fin 4, Fin 5, Fin 6], doc_metadata = None\<rparr>),
      (2, \<lparr>doc_id = ''doc3'', doc_content = ''Test 3'', embedding = [Fin 7, Fin 8, Fin 9], doc_metadata = None\<rparr>)]"

text \<open>The same three documents added while the clock is set back, a store that holds three
  imported documents under the limit of two, and two further adds.\<close>

definition backwardAdds :: "(int \<times> DocumentInput) list" where
  "backwardAdds = zip [5, 3, 4] (map snd threeAdds)"

definition overfullStore :: InMemoryVectorStore where
  "overfullStore = import limitedStore (map (\<lambda>r. stamp (snd r) (fst r)) threeAdds)"

definition twoAdds :: "(int \<times> DocumentInput) list" where
  "twoAdds =
     [(3, \<lparr>doc_id = ''doc4'', doc_content = ''Test 4'', embedding = [Fin 1, Fin 2, Fin 3], doc_metadata = None\<rparr>),
      (4, \<lparr>doc_id = ''doc5'', doc_content = ''Test 5'', embedding = [Fin 4, Fin 5, Fin 6], doc_metadata = None\<rparr>)]"

text \<open>A store of dimension 1 into which a document with two components was imported, and a
  store with a document whose only component is \<open>2 ^ 600\<close>; \<open>add\<close> accepts both documents
  of the second store.\<close>

definition wideDoc :: VectorDocument where
  "wideDoc = \<lparr>doc_id = ''w'', doc_content = ''wide'', embedding = [Fin 1, Fin 1],
               doc_metadata = None, createdAt = 1\<rparr>"

definition importedStore :: InMemoryVectorStore where
  "importedStore =
     import (newStore \<lparr>p_dimensions = Some 1, p_similarityMetric = None, p_maxDocuments = None\<rparr>)
       [wideDoc]"

definition huge :: number where
  "huge = Fin (2 ^ 600)"

definition hugeDoc :: VectorDocument where
  "hugeDoc = \<lparr>doc_id = ''h'', doc_content = ''huge'', embedding = [huge],
               doc_metadata = None, createdAt = 1\<rparr>"

definition zeroDoc :: VectorDocument where
  "zeroDoc = \<lparr>doc_id = ''z'', doc_content = ''zero'', embedding = [Fin 0],
               doc_metadata = None, createdAt = 2\<rparr>"

definition hugeStore :: InMemoryVectorStore where
  "hugeStore = \<lparr>documents = [(''h'', hugeDoc), (''z'', zeroDoc)],
                 config = \<lparr>dimensions = 1, similarityMetric = cosine, maxDocuments = None\<rparr>\<rparr>"

text \<open>The map entry that \<open>add\<close> writes for a document added at a clock reading.\<close>

definition entryOf :: "int \<times> DocumentInput \<Rightarrow> string \<times> VectorDocument" where
  "entryOf r = (doc_id (snd r), stamp (snd r) (fst r))"

definition chunkOfLength :: "nat \<Rightarrow> int \<Rightarrow> TextChunk" where
  "chunkOfLength n i = \<lparr>content = replicate n CHR ''x'', index = i, startOffset = 0,
                        endOffset = int n, metadata = None\<rparr>"

text \<open>Configurations and texts of the examples.\<close>

definition cfg200 :: ChunkConfig where
  "cfg200 = defaultConfig\<lparr>maxChunkSize := 200, chunkOverlap := 0\<rparr>"

definition textAB :: string where
  "textAB = replicate 500 CHR ''A'' @ newline @ newline @ replicate 500 CHR ''B''"

definition rawChunk :: "string \<Rightarrow> int \<Rightarrow> int \<Rightarrow> int \<Rightarrow> TextChunk" where
  "rawChunk s i a b = \<lparr>content = s, index = i, startOffset = a, endOffset = b, metadata = None\<rparr>"

definition cfgSmall :: ChunkConfig where
  "cfgSmall = \<lparr>maxChunkSize = 4, chunkOverlap = 2, separators = ['' ''], preserveStructure = True\<rparr>"

definition cfgMalformed :: ChunkConfig where
  "cfgMalformed = defaultConfig\<lparr>maxChunkSize := 20, chunkOverlap := 30\<rparr>"


definition keepOrder :: "'a list \<Rightarrow> 'a list" where
  "keepOrder xs = xs"

definition neverReturns :: "string \<Rightarrow> string list option" where
  "neverReturns part = None"

text \<open>Whether a document passes the optional filter of \<open>search\<close>.\<close>

definition passes :: "(VectorDocument \<Rightarrow> bool) option \<Rightarrow> VectorDocument \<Rightarrow> bool" where
  "passes flt doc = (case flt of None \<Rightarrow> True | Some f \<Rightarrow> f doc)"

section \<open>Properties of double arithmetic\<close>

lemma ulp_pos: "0 < ulp z"
  by (simp add: ulp_def)

lemma ulp_grid: "onGrid (of_int r * ulp z)"
proof -
  define t where "t = nat (bitlen \<lfloor>\<bar>z\<bar> * 2 ^ 1022\<rfloor> - 1)"
  have "of_int r * ulp z = of_int (r * 2 ^ t) / 2 ^ 1074"
    by (simp add: ulp_def t_def)
  then show ?thesis
    unfolding onGrid_def by blast
qed

lemma isDouble_fl: "isDouble (fl z)"
proof -
  have "onGrid 0"
    unfolding onGrid_def by (rule exI [of _ 0]) simp
  then show ?thesis
    by (simp add: fl_def Let_def ulp_grid)
qed

lemma ulp_le:
  assumes "1 / 2 ^ 1074 \<le> \<bar>z\<bar>"
  shows "ulp z \<le> \<bar>z\<bar>"
proof (cases "\<lfloor>\<bar>z\<bar> * 2 ^ 1022\<rfloor> > 0")
  case False
  then have "bitlen \<lfloor>\<bar>z\<bar> * 2 ^ 1022\<rfloor> = 0"
    by (simp add: bitlen_eq_zero_iff)
  then have "ulp z = 1 / 2 ^ 1074"
    by (simp add: ulp_def)
  with assms show ?thesis by simp
next
  case True
  define m where "m = \<lfloor>\<bar>z\<bar> * 2 ^ 1022\<rfloor>"
  define t where "t = nat (bitlen m - 1)"
  from True have "2 ^ t \<le> m"
    unfolding t_def m_def using bitlen_bounds by blast
  then have "(2::real) ^ t \<le> of_int m"
    by (metis of_int_le_iff of_int_numeral of_int_power)
  also have "of_int m \<le> \<bar>z\<bar> * 2 ^ 1022"
    unfolding m_def by (rule of_int_floor_le)
  finally have "(2::real) ^ t / 2 ^ 1074 \<le> \<bar>z\<bar> * 2 ^ 1022 / 2 ^ 1074"
    by (simp add: divide_right_mono)
  also have "\<dots> \<le> \<bar>z\<bar>"
    by (simp add: field_simps)
  finally show ?thesis
    by (simp add: ulp_def t_def m_def)
qed

lemma roundHalfEven_ge: "1 \<le> k \<Longrightarrow> 1 \<le> roundHalfEven k"
proof -
  assume "1 \<le> k"
  then have "1 \<le> \<lfloor>k\<rfloor>" by simp
  then show ?thesis by (simp add: roundHalfEven_def Let_def)
qed

lemma roundHalfEven_le: "k \<le> - 1 \<Longrightarrow> roundHalfEven k \<le> - 1"
proof -
  assume k: "k \<le> - 1"
  then have f: "\<lfloor>k\<rfloor> \<le> - 1" by (simp add: floor_le_iff)
  show ?thesis
  proof (cases "\<lfloor>k\<rfloor> = - 1")
    case True
    then have "- 1 \<le> k" by (metis of_int_floor_le of_int_minus of_int_1)
    with k have "k = - 1" by simp
    with True have "k - of_int \<lfloor>k\<rfloor> = 0" by simp
    with True show ?thesis by (simp only: roundHalfEven_def Let_def) simp
  next
    case False
    with f have "\<lfloor>k\<rfloor> + 1 \<le> - 1" by simp
    with f show ?thesis by (simp add: roundHalfEven_def Let_def)
  qed
qed

lemma fl_pos:
  assumes "1 / 2 ^ 1074 \<le> z"
  shows "jsLt (Fin 0) (fl z)"
proof -
  from assms have z: "0 < z" by (smt (verit) divide_pos_pos zero_less_numeral zero_less_power zero_less_one)
  from assms z have "ulp z \<le> z" using ulp_le [of z] by simp
  with ulp_pos [of z] have "1 \<le> z / ulp z" by (simp add: field_simps)
  then have "1 \<le> roundHalfEven (z / ulp z)" by (rule roundHalfEven_ge)
  then have "(1::real) \<le> of_int (roundHalfEven (z / ulp z))" by simp
  with ulp_pos [of z] have "0 < of_int (roundHalfEven (z / ulp z)) * ulp z"
    by (simp add: mult_pos_pos)
  with z show ?thesis by (simp add: fl_def Let_def)
qed

lemma fl_neg:
  assumes "z \<le> - (1 / 2 ^ 1074)"
  shows "jsLt (fl z) (Fin 0)"
proof -
  from assms have z: "z < 0" by (smt (verit) divide_pos_pos zero_less_numeral zero_less_power zero_less_one)
  from assms z have "ulp z \<le> - z" using ulp_le [of z] by simp
  with ulp_pos [of z] have "z / ulp z \<le> - 1" by (simp add: field_simps)
  then have "roundHalfEven (z / ulp z) \<le> - 1" by (rule roundHalfEven_le)
  then have "of_int (roundHalfEven (z / ulp z)) \<le> (- 1 :: real)" by (metis of_int_le_iff of_int_minus of_int_1)
  with ulp_pos [of z] have "of_int (roundHalfEven (z / ulp z)) * ulp z < 0"
    by (simp add: mult_neg_pos)
  with z show ?thesis by (simp add: fl_def Let_def)
qed

lemma grid_gap:
  assumes "onGrid x" "onGrid y" "x < y"
  shows "1 / 2 ^ 1074 \<le> y - x"
proof -
  from assms(1,2) obtain n m :: int where x: "x = of_int n / 2 ^ 1074" and y: "y = of_int m / 2 ^ 1074"
    unfolding onGrid_def by blast
  with assms(3) have "n < m" by (simp add: divide_strict_right_mono field_simps)
  then have "(1::real) \<le> of_int m - of_int n" by linarith
  then have "1 / 2 ^ 1074 \<le> (of_int m - of_int n) / (2 ^ 1074 :: real)"
    by (simp add: divide_right_mono)
  then show ?thesis by (simp add: x y diff_divide_distrib)
qed

text \<open>The sign of a difference of two doubles is the sign of the exact difference.\<close>

lemma jsSub_sign:
  assumes "isDouble a" "isDouble b" "a \<noteq> NaN" "b \<noteq> NaN"
  shows "jsLt (jsSub b a) (Fin 0) = jsLt b a" and "jsGt (jsSub b a) (Fin 0) = jsLt a b"
proof -
  have fin: "jsLt (fl (y - x)) (Fin 0) = (y < x) \<and> jsLt (Fin 0) (fl (y - x)) = (x < y)"
    if "onGrid x" "onGrid y" for x y
  proof (cases x y rule: linorder_cases)
    case less
    from fl_pos [OF grid_gap [OF that less]] have p: "jsLt (Fin 0) (fl (y - x))" .
    then have "\<not> jsLt (fl (y - x)) (Fin 0)" by (cases "fl (y - x)") auto
    with p less show ?thesis by simp
  next
    case equal
    then show ?thesis by (simp add: fl_def)
  next
    case greater
    from grid_gap [OF that(2,1) greater] have "y - x \<le> - (1 / 2 ^ 1074)" by simp
    from fl_neg [OF this] have p: "jsLt (fl (y - x)) (Fin 0)" .
    then have "\<not> jsLt (Fin 0) (fl (y - x))" by (cases "fl (y - x)") auto
    with p greater show ?thesis by simp
  qed
  show "jsLt (jsSub b a) (Fin 0) = jsLt b a"
    using assms fin by (cases a; cases b) (auto simp: jsSub_def)
  show "jsGt (jsSub b a) (Fin 0) = jsLt a b"
    using assms fin by (cases a; cases b) (auto simp: jsSub_def jsGt_def)
qed

lemma roundHalfEven_of_int: "roundHalfEven (of_int n) = n"
  by (simp add: roundHalfEven_def)

lemma bitlen_two_power: "bitlen (2 ^ n) = int n + 1"
proof -
  have "bitlen 1 = 1" by (simp add: bitlen_alt_def [of 1] bitlen_alt_def [of 0])
  with bitlen_pow2 [of 1 n] show ?thesis by simp
qed

lemma spacing_at_one:
  assumes "n \<le> m"
  shows "2 ^ nat (bitlen \<lfloor>\<bar>1::real\<bar> * 2 ^ n\<rfloor> - 1) / (2::real) ^ m = 1 / 2 ^ (m - n)"
proof -
  have "\<lfloor>\<bar>1::real\<bar> * 2 ^ n\<rfloor> = 2 ^ n" by simp
  then have "nat (bitlen \<lfloor>\<bar>1::real\<bar> * 2 ^ n\<rfloor> - 1) = n"
    by (simp only: bitlen_two_power)
  with assms show ?thesis
    by (simp add: power_diff)
qed

lemma ulp_one: "ulp 1 = 1 / 2 ^ 52"
proof -
  have "ulp 1 = 1 / 2 ^ (1074 - 1022)"
    unfolding ulp_def by (rule spacing_at_one) simp
  then show ?thesis by simp
qed

lemma fl_one: "fl 1 = Fin 1"
proof -
  have "(1::real) / ulp 1 = of_int (2 ^ 52)" by (simp add: ulp_one)
  then have "roundHalfEven (1 / ulp 1) = 2 ^ 52" by (simp only: roundHalfEven_of_int)
  moreover have "\<not> (2::real) ^ 1024 \<le> 1"
    by (simp add: not_le one_less_power)
  ultimately show ?thesis
    unfolding fl_def Let_def by (simp add: ulp_one)
qed

lemma roundHalfEven_floor: "\<lfloor>k\<rfloor> \<le> roundHalfEven k"
  by (simp add: roundHalfEven_def Let_def)

text \<open>A result from \<open>2 ^ 1024\<close> on overflows.\<close>

lemma spacing_overflow:
  fixes z u :: real
  assumes big: "2 ^ T \<le> z" and P: "P \<le> T"
    and u: "u = 2 ^ nat (bitlen \<lfloor>\<bar>z\<bar> * 2 ^ E\<rfloor> - 1) / 2 ^ (E + P)"
  shows "2 ^ T \<le> of_int (roundHalfEven (z / u)) * u"
proof -
  define m where "m = \<lfloor>\<bar>z\<bar> * 2 ^ E\<rfloor>"
  define t where "t = nat (bitlen m - 1)"
  define r where "r = roundHalfEven (z / u)"
  have "(0::real) < 2 ^ T" by simp
  with big have z: "0 < z" by linarith
  have u': "u = 2 ^ t / 2 ^ (E + P)"
    by (simp only: u t_def m_def)
  have "(2::real) ^ (T + E) = 2 ^ T * 2 ^ E"
    by (rule power_add)
  also have "\<dots> \<le> z * 2 ^ E"
    using big by simp
  finally have "of_int (2 ^ (T + E)) \<le> \<bar>z\<bar> * 2 ^ E"
    using z by simp
  then have m_ge: "2 ^ (T + E) \<le> m"
    unfolding m_def by (simp only: le_floor_iff)
  have "(0::int) < 2 ^ (T + E)" by simp
  with m_ge have m_pos: "0 < m" by linarith
  from bitlen_bounds [OF m_pos] have lo: "2 ^ t \<le> m" and hi: "m < 2 ^ nat (bitlen m)"
    by (simp_all only: t_def)
  from m_pos have "0 < bitlen m"
    using bitlen_eq_zero_iff [of m] bitlen_nonneg [of m] by linarith
  then have "nat (bitlen m) = Suc t"
    unfolding t_def by linarith
  with m_ge hi have lt: "(2::int) ^ (T + E) < 2 ^ Suc t" by simp
  have "T + E < Suc t"
    by (rule power_less_imp_less_exp [OF _ lt]) simp
  then have t: "T + E \<le> t" by linarith
  from z have az: "\<bar>z\<bar> = z" by simp
  have fm: "of_int m \<le> z * 2 ^ E"
    unfolding m_def az by (rule of_int_floor_le)
  from lo have "(2::real) ^ t \<le> of_int m"
    by (metis of_int_le_iff of_int_numeral of_int_power)
  from this fm have "(2::real) ^ t \<le> z * 2 ^ E"
    by (rule order_trans)
  then have "(2::real) ^ t * 2 ^ P \<le> z * 2 ^ E * 2 ^ P"
    by simp
  then have "(2::real) ^ P \<le> z * 2 ^ (E + P) / 2 ^ t"
    by (simp add: pos_le_divide_eq power_add mult.commute mult.left_commute)
  then have "of_int (2 ^ P) \<le> z / u"
    by (simp add: u')
  then have "2 ^ P \<le> \<lfloor>z / u\<rfloor>"
    by (simp only: le_floor_iff)
  with roundHalfEven_floor [of "z / u"] have "2 ^ P \<le> r"
    unfolding r_def by linarith
  then have rp: "(2::real) ^ P \<le> of_int r"
    by (metis of_int_le_iff of_int_numeral of_int_power)
  have "(0::real) \<le> 2 ^ P" by simp
  with rp have r0: "(0::real) \<le> of_int r" by linarith
  have up: "(2::real) ^ (T - P) \<le> u"
  proof -
    have "(2::real) ^ (T + E) \<le> 2 ^ t"
      by (rule power_increasing [OF t]) simp
    moreover from P have "T + E = (T - P) + (E + P)" by simp
    then have "(2::real) ^ (T + E) = 2 ^ (T - P) * 2 ^ (E + P)"
      by (simp only: power_add)
    ultimately have "(2::real) ^ (T - P) * 2 ^ (E + P) \<le> 2 ^ t" by (simp only:)
    then show ?thesis
      unfolding u' by (simp only: pos_le_divide_eq zero_less_power zero_less_numeral)
  qed
  have "(2::real) ^ P * 2 ^ (T - P) \<le> of_int r * u"
    by (rule mult_mono [OF rp up r0]) simp
  moreover from P have "(2::real) ^ P * 2 ^ (T - P) = 2 ^ T"
    by (simp flip: power_add)
  ultimately show ?thesis
    unfolding r_def by (simp only:)
qed

lemma fl_overflow:
  assumes "2 ^ 1024 \<le> z"
  shows "fl z = PInf"
proof -
  have "ulp z = 2 ^ nat (bitlen \<lfloor>\<bar>z\<bar> * 2 ^ 1022\<rfloor> - 1) / 2 ^ (1022 + 52)"
    by (simp only: ulp_def) simp
  from spacing_overflow [OF assms _ this]
  have big: "2 ^ 1024 \<le> of_int (roundHalfEven (z / ulp z)) * ulp z"
    by simp
  have "(0::real) < 2 ^ 1024" by (rule zero_less_power) simp
  with assms big have "0 < z" "z \<noteq> 0"
    and "2 ^ 1024 \<le> \<bar>of_int (roundHalfEven (z / ulp z)) * ulp z\<bar>"
    by linarith+
  then show ?thesis
    by (simp only: fl_def Let_def if_True if_False)
qed

lemma onGrid_zero: "onGrid 0"
  unfolding onGrid_def by (rule exI [of _ 0]) simp

lemma isDouble_jsAdd: "isDouble (jsAdd a b)"
  by (cases a; cases b) (simp_all add: isDouble_fl)

lemma isDouble_jsDiv: "isDouble (jsDiv a b)"
  by (cases a; cases b) (simp_all add: isDouble_fl onGrid_zero)

lemma fl_zero: "fl 0 = Fin 0"
  by (simp add: fl_def)

text \<open>The comparison \<^verbatim>\<open><\<close> is a strict linear order on the numbers other than \<^verbatim>\<open>NaN\<close>.\<close>

lemma jsLt_trans: "jsLt a b \<Longrightarrow> jsLt b c \<Longrightarrow> jsLt a c"
  by (cases a; cases b; cases c) auto

lemma jsLt_irrefl: "\<not> jsLt a a"
  by (cases a) auto

lemma jsLt_linear: "a \<noteq> NaN \<Longrightarrow> b \<noteq> NaN \<Longrightarrow> jsLt a b \<or> a = b \<or> jsLt b a"
  by (cases a; cases b) auto

lemma jsGe_iff: "a \<noteq> NaN \<Longrightarrow> b \<noteq> NaN \<Longrightarrow> jsGe a b = (\<not> jsLt a b)"
  by (cases a; cases b) (auto simp: jsGe_def)

lemma jsGe_trans: "jsGe a b \<Longrightarrow> jsGe b c \<Longrightarrow> jsGe a c"
  by (cases a; cases b; cases c) (auto simp: jsGe_def)

lemma jsGe_NaN: "\<not> jsGe NaN b" "\<not> jsGe a NaN"
  by (cases b; simp add: jsGe_def) (cases a; simp add: jsGe_def)

section \<open>Sorting an array\<close>

lemma set_insertSorted: "set (insertSorted cmp x ys) = insert x (set ys)"
  by (induction ys) auto

lemma length_insertSorted: "length (insertSorted cmp x ys) = Suc (length ys)"
  by (induction ys) auto

lemma set_stableSort: "set (stableSort cmp xs) = set xs"
  by (induction xs) (simp_all add: stableSort_def set_insertSorted)

lemma length_stableSort: "length (stableSort cmp xs) = length xs"
  by (induction xs) (simp_all add: stableSort_def length_insertSorted)

lemma sorted_insertSorted:
  assumes "sorted_wrt (\<lambda>a b. jsGe (key a) (key b)) ys"
    and "key x \<noteq> NaN" and "\<forall>y \<in> set ys. key y \<noteq> NaN"
    and "\<forall>y \<in> set ys. jsGt (cmp x y) (Fin 0) = jsLt (key x) (key y)"
  shows "sorted_wrt (\<lambda>a b. jsGe (key a) (key b)) (insertSorted cmp x ys)"
  using assms
proof (induction ys)
  case Nil
  then show ?case by simp
next
  case (Cons y ys)
  show ?case
  proof (cases "jsLt (key x) (key y)")
    case True
    then have "jsGe (key y) (key x)" by (simp add: jsGe_def)
    moreover from Cons have "sorted_wrt (\<lambda>a b. jsGe (key a) (key b)) (insertSorted cmp x ys)"
      by simp
    ultimately show ?thesis
      using True Cons.prems by (simp add: set_insertSorted)
  next
    case False
    with Cons.prems have ge: "jsGe (key x) (key y)" by (simp add: jsGe_iff)
    from Cons.prems have "\<forall>z \<in> set ys. jsGe (key y) (key z)" by simp
    with ge have "\<forall>z \<in> set ys. jsGe (key x) (key z)" by (blast intro: jsGe_trans)
    with ge False Cons.prems show ?thesis by simp
  qed
qed

lemma sorted_stableSort:
  assumes "\<forall>a \<in> set xs. key a \<noteq> NaN"
    and "\<forall>a \<in> set xs. \<forall>b \<in> set xs. jsGt (cmp a b) (Fin 0) = jsLt (key a) (key b)"
  shows "sorted_wrt (\<lambda>a b. jsGe (key a) (key b)) (stableSort cmp xs)"
  using assms
proof (induction xs)
  case Nil
  then show ?case by (simp add: stableSort_def)
next
  case (Cons x xs)
  from Cons have IH: "sorted_wrt (\<lambda>a b. jsGe (key a) (key b)) (stableSort cmp xs)" by simp
  have "sorted_wrt (\<lambda>a b. jsGe (key a) (key b)) (insertSorted cmp x (stableSort cmp xs))"
    by (rule sorted_insertSorted [OF IH]) (use Cons.prems in \<open>simp_all add: set_stableSort\<close>)
  then show ?case by (simp add: stableSort_def)
qed

text \<open>On scores without \<^verbatim>\<open>NaN\<close> the comparison function of \<open>search\<close> is consistent, so the sort
  does not depend on the engine.\<close>

lemma byScoreDescending_sign:
  assumes "isDouble (score a)" "isDouble (score b)" "score a \<noteq> NaN" "score b \<noteq> NaN"
  shows "sortsBefore byScoreDescending a b = jsLt (score b) (score a)"
    and "sortsAfter byScoreDescending a b = jsLt (score a) (score b)"
    and "sortsSame byScoreDescending a b = (score a = score b)"
proof -
  show b: "sortsBefore byScoreDescending a b = jsLt (score b) (score a)"
    using jsSub_sign(1) [OF assms(1,2,3,4)] by (simp add: sortsBefore_def byScoreDescending_def)
  show a: "sortsAfter byScoreDescending a b = jsLt (score a) (score b)"
    using jsSub_sign(2) [OF assms(1,2,3,4)] by (simp add: sortsAfter_def byScoreDescending_def)
  show "sortsSame byScoreDescending a b = (score a = score b)"
    unfolding sortsSame_def a b using jsLt_linear [OF assms(3,4)] jsLt_irrefl by auto
qed

lemma consistent_byScoreDescending:
  assumes "\<forall>r \<in> set rs. isDouble (score r) \<and> score r \<noteq> NaN"
  shows "consistentComparator byScoreDescending rs"
  unfolding consistentComparator_def
proof (intro ballI conjI impI)
  fix a assume "a \<in> set rs"
  with assms show "sortsSame byScoreDescending a a"
    by (simp add: byScoreDescending_sign(3))
next
  fix a b assume "a \<in> set rs" "b \<in> set rs" "sortsSame byScoreDescending a b"
  with assms show "sortsSame byScoreDescending b a"
    by (simp add: byScoreDescending_sign(3))
next
  fix a b c assume m: "a \<in> set rs" "b \<in> set rs" "c \<in> set rs"
    and s: "sortsSame byScoreDescending a b \<and> sortsSame byScoreDescending b c"
  from m assms s have "score a = score b" "score b = score c"
    by (simp_all add: byScoreDescending_sign(3))
  with m assms show "sortsSame byScoreDescending a c"
    by (simp add: byScoreDescending_sign(3))
next
  fix a b c assume m: "a \<in> set rs" "b \<in> set rs" "c \<in> set rs"
    and s: "sortsBefore byScoreDescending a b \<and> sortsBefore byScoreDescending b c"
  from m assms s have "jsLt (score b) (score a)" "jsLt (score c) (score b)"
    by (simp_all add: byScoreDescending_sign(1))
  then have "jsLt (score c) (score a)" by (blast intro: jsLt_trans)
  with m assms show "sortsBefore byScoreDescending a c"
    by (simp add: byScoreDescending_sign(1))
next
  fix a b c assume m: "a \<in> set rs" "b \<in> set rs" "c \<in> set rs"
    and s: "sortsAfter byScoreDescending a b \<and> sortsAfter byScoreDescending b c"
  from m assms s have "jsLt (score a) (score b)" "jsLt (score b) (score c)"
    by (simp_all add: byScoreDescending_sign(2))
  then have "jsLt (score a) (score c)" by (blast intro: jsLt_trans)
  with m assms show "sortsAfter byScoreDescending a c"
    by (simp add: byScoreDescending_sign(2))
qed

lemma arraySort_byScoreDescending:
  assumes "\<forall>r \<in> set rs. isDouble (score r) \<and> score r \<noteq> NaN"
  shows "arraySort byScoreDescending engineOrder rs = stableSort byScoreDescending rs"
    and "sorted_wrt (\<lambda>a b. jsGe (score a) (score b)) (stableSort byScoreDescending rs)"
proof -
  show "arraySort byScoreDescending engineOrder rs = stableSort byScoreDescending rs"
    using consistent_byScoreDescending [OF assms] by (simp add: arraySort_def)
  have "\<forall>a \<in> set rs. \<forall>b \<in> set rs.
          jsGt (byScoreDescending a b) (Fin 0) = jsLt (score a) (score b)"
    using assms byScoreDescending_sign(2) by (simp add: sortsAfter_def)
  with assms show "sorted_wrt (\<lambda>a b. jsGe (score a) (score b)) (stableSort byScoreDescending rs)"
    by (intro sorted_stableSort) simp_all
qed

section \<open>Properties of the map\<close>

lemma Map_set_fresh: "k \<notin> fst ` set m \<Longrightarrow> Map_set m k v = m @ [(k, v)]"
  by (induction m) auto

lemma fold_Map_set_append:
  "distinct (map fst (m @ map (\<lambda>d. (doc_id d, d)) ds)) \<Longrightarrow>
   fold (\<lambda>doc m. Map_set m (doc_id doc) doc) ds m = m @ map (\<lambda>d. (doc_id d, d)) ds"
proof (induction ds arbitrary: m)
  case Nil
  then show ?case by simp
next
  case (Cons d ds)
  from Cons.prems have fresh: "doc_id d \<notin> fst ` set m"
    by (auto simp: image_iff)
  from Cons.prems have "distinct (map fst ((m @ [(doc_id d, d)]) @ map (\<lambda>d. (doc_id d, d)) ds))"
    by simp
  from Cons.IH [OF this] fresh show ?case
    by (simp add: Map_set_fresh)
qed

lemma keyedById_values: "keyedById m \<Longrightarrow> map (\<lambda>d. (doc_id d, d)) (Map_values m) = m"
  unfolding keyedById_def Map_values_def
  by (induction m) auto

lemma fst_set_Map_set: "fst ` set (Map_set m k v) = insert k (fst ` set m)"
proof (induction m)
  case Nil
  then show ?case by simp
next
  case (Cons kv m)
  obtain k' v' where kv: "kv = (k', v')" by (cases kv)
  show ?case
  proof (cases "k' = k")
    case True
    then show ?thesis by (simp add: kv)
  next
    case False
    with Cons show ?thesis by (simp add: kv insert_commute)
  qed
qed

lemma keyedById_Map_set:
  assumes "keyedById m"
  shows "keyedById (Map_set m (doc_id d) d)"
  using assms
proof (induction m)
  case Nil
  then show ?case by (simp add: keyedById_def)
next
  case (Cons kv m)
  obtain k' v' where kv: "kv = (k', v')" by (cases kv)
  from Cons.prems have tl: "keyedById m" and k': "k' \<notin> fst ` set m" "k' = doc_id v'"
    by (auto simp: keyedById_def kv)
  from Cons.IH [OF tl] have IH: "distinct (map fst (Map_set m (doc_id d) d))"
      "list_all (\<lambda>kv. fst kv = doc_id (snd kv)) (Map_set m (doc_id d) d)"
    by (simp_all add: keyedById_def)
  show ?case
  proof (cases "k' = doc_id d")
    case True
    with k'(1) tl show ?thesis by (auto simp: keyedById_def kv)
  next
    case False
    with k' have "k' \<notin> fst ` set (Map_set m (doc_id d) d)"
      by (simp add: fst_set_Map_set)
    with False IH k'(2) show ?thesis by (simp add: keyedById_def kv)
  qed
qed

lemma keyedById_Map_delete: "keyedById m \<Longrightarrow> keyedById (Map_delete m k)"
  by (simp add: keyedById_def Map_delete_def distinct_map_filter list_all_iff)

text \<open>The store of the constructor is keyed by id, and \<open>add\<close> and \<open>import\<close> keep it so.\<close>

lemma keyedById_newStore: "keyedById (documents (newStore c))"
  by (simp add: keyedById_def newStore_def)

lemma keyedById_add:
  assumes "keyedById (documents st)" and "add st now doc = Inr st'"
  shows "keyedById (documents st')"
proof -
  have "keyedById (evictOldest (documents st))"
    using assms(1) by (simp add: evictOldest_def keyedById_Map_delete split: list.splits)
  with assms(1) have "keyedById (if atCapacity st then evictOldest (documents st) else documents st)"
    by simp
  from keyedById_Map_set [OF this, of "stamp doc now"] assms(2) show ?thesis
    by (auto simp: add_def Let_def stamp_def split: if_splits)
qed

lemma keyedById_import:
  assumes "keyedById (documents st)"
  shows "keyedById (documents (import st docs))"
proof -
  have "keyedById m \<Longrightarrow> keyedById (fold (\<lambda>doc m. Map_set m (doc_id doc) doc) docs m)" for m
    by (induction docs arbitrary: m) (simp_all add: keyedById_Map_set)
  with assms show ?thesis by (simp add: import_def)
qed

section \<open>Export and import\<close>

text \<open>
  Claim C7. Exporting a store and importing the exported array into a fresh store of the
  same configuration rebuilds the same map of documents: the size is the same and every id
  gives the same document, so the same content and embedding.
\<close>

theorem export_import_roundtrip:
  assumes "keyedById (documents st)"
  shows "documents (import (newStore c) (export st)) = documents st
       \<and> size_store (import (newStore c) (export st)) = size_store st
       \<and> (\<forall>i. get (import (newStore c) (export st)) i = get st i)"
proof -
  from assms have d: "distinct (map fst ([] @ map (\<lambda>d. (doc_id d, d)) (Map_values (documents st))))"
    by (simp add: keyedById_values) (simp add: keyedById_def)
  have "documents (import (newStore c) (export st)) =
        [] @ map (\<lambda>d. (doc_id d, d)) (Map_values (documents st))"
    unfolding import_def export_def newStore_def
    using fold_Map_set_append [OF d] by simp
  then have "documents (import (newStore c) (export st)) = documents st"
    using assms by (simp add: keyedById_values)
  then show ?thesis
    by (simp add: size_store_def get_def)
qed

theorem export_import_roundtrip_witness:
  "keyedById (documents fullStore)
   \<and> documents (import (newStore \<lparr>p_dimensions = Some 1, p_similarityMetric = None, p_maxDocuments = Some 2\<rparr>) (export fullStore)) = documents fullStore
   \<and> size_store (import (newStore \<lparr>p_dimensions = Some 1, p_similarityMetric = None, p_maxDocuments = Some 2\<rparr>) (export fullStore)) = size_store fullStore
   \<and> (\<forall>i. get (import (newStore \<lparr>p_dimensions = Some 1, p_similarityMetric = None, p_maxDocuments = Some 2\<rparr>) (export fullStore)) i = get fullStore i)"
proof -
  have k: "keyedById (documents fullStore)"
    by (simp add: keyedById_def fullStore_def docA_def docB_def)
  from export_import_roundtrip [OF k] k show ?thesis by blast
qed

section \<open>Adding at capacity\<close>

lemma Map_delete_hd:
  "distinct (map fst (kv # m)) \<Longrightarrow> Map_delete (kv # m) (fst kv) = m"
  unfolding Map_delete_def by (cases kv) (auto simp: filter_id_conv image_iff)

lemma lastN_append:
  "drop (length (drop (length xs - n) xs @ ys) - n) (drop (length xs - n) xs @ ys)
   = drop (length (xs @ ys) - n) (xs @ ys)"
  by (cases "length xs \<le> n") (auto simp: add.commute)

lemma add_step:
  assumes mx: "maxDocuments (config st) = Some N" "0 < N"
    and docs: "documents st = map entryOf cur"
    and len: "int (length cur) \<le> N"
    and sorted: "sorted (map fst cur)"
    and dist: "distinct (map (doc_id \<circ> snd) (cur @ [(now, doc)]))"
    and dim: "int (length (embedding doc)) = dimensions (config st)"
  shows "add st now doc =
         Inr (st\<lparr>documents := map entryOf (drop (length (cur @ [(now, doc)]) - nat N) (cur @ [(now, doc)]))\<rparr>)"
proof (cases "int (length cur) < N")
  case True
  then have nc: "\<not> atCapacity st"
    using mx docs by (simp add: atCapacity_def Map_size_def)
  have fresh: "doc_id doc \<notin> fst ` set (map entryOf cur)"
    using dist by (auto simp: entryOf_def image_iff)
  from True have "length (cur @ [(now, doc)]) - nat N = 0" by simp
  then show ?thesis
    using nc fresh dim docs
    by (simp add: add_def Map_set_fresh entryOf_def)
next
  case False
  with len have eq: "int (length cur) = N" by simp
  with mx obtain r rest where cur: "cur = r # rest" by (cases cur) auto
  have cap: "atCapacity st"
    using mx docs eq by (simp add: atCapacity_def Map_size_def)
  have "sorted (map createdAt (Map_values (map entryOf cur)))"
    using sorted by (simp add: Map_values_def entryOf_def stamp_def comp_def)
  then have srt: "sort_key createdAt (Map_values (map entryOf cur)) = Map_values (map entryOf cur)"
    by (rule sort_key_id_if_sorted)
  have dk: "distinct (map fst (map entryOf cur))"
    using dist by (simp add: entryOf_def comp_def)
  have ev: "evictOldest (map entryOf cur) = map entryOf rest"
    unfolding evictOldest_def srt
    using Map_delete_hd [of "entryOf r" "map entryOf rest"] dk
    by (simp add: cur Map_values_def entryOf_def stamp_def)
  have fresh: "doc_id doc \<notin> fst ` set (map entryOf rest)"
    using dist by (auto simp: entryOf_def image_iff cur)
  have "length (cur @ [(now, doc)]) - nat N = 1"
    using eq by simp
  then have "drop (length (cur @ [(now, doc)]) - nat N) (cur @ [(now, doc)]) = rest @ [(now, doc)]"
    by (simp add: cur)
  then show ?thesis
    using cap ev fresh dim docs
    by (simp add: add_def Map_set_fresh entryOf_def)
qed

lemma addBatch_run:
  assumes mx: "maxDocuments (config st) = Some N" "0 < N"
    and docs: "documents st = map entryOf cur"
    and len: "int (length cur) \<le> N"
    and sorted: "sorted (map fst (cur @ reqs))"
    and dist: "distinct (map (doc_id \<circ> snd) (cur @ reqs))"
    and dim: "\<forall>r \<in> set reqs. int (length (embedding (snd r))) = dimensions (config st)"
  shows "addBatch st reqs =
         (st\<lparr>documents := map entryOf (drop (length (cur @ reqs) - nat N) (cur @ reqs))\<rparr>, None)"
  using assms
proof (induction reqs arbitrary: st cur)
  case Nil
  then show ?case by simp
next
  case (Cons r reqs)
  obtain now doc where r: "r = (now, doc)" by (cases r)
  define k where "k = length (cur @ [(now, doc)]) - nat N"
  define cur' where "cur' = drop k (cur @ [(now, doc)])"
  define st' where "st' = st\<lparr>documents := map entryOf cur'\<rparr>"
  define tgt where "tgt = drop (length (cur @ r # reqs) - nat N) (cur @ r # reqs)"
  have s1: "sorted (map fst cur)"
    using Cons.prems(5) by (simp add: sorted_append)
  have d1: "distinct (map (doc_id \<circ> snd) (cur @ [(now, doc)]))"
    using Cons.prems(6) by (simp add: r comp_def)
  have step: "add st now doc = Inr st'"
    unfolding st'_def cur'_def k_def
    using add_step [OF Cons.prems(1,2,3,4) s1 d1] Cons.prems(7) by (simp add: r)
  have l': "int (length cur') \<le> N"
    unfolding cur'_def k_def using Cons.prems(2,4) by simp
  have eqd: "cur' @ reqs = drop k (cur @ r # reqs)"
    unfolding cur'_def k_def using Cons.prems(2) by (simp add: r)
  have "sorted (drop k (map fst (cur @ r # reqs)))"
    using Cons.prems(5) by (rule sorted_wrt_drop)
  then have s': "sorted (map fst (cur' @ reqs))"
    by (simp only: eqd drop_map)
  have "distinct (drop k (map (doc_id \<circ> snd) (cur @ r # reqs)))"
    using Cons.prems(6) by (rule distinct_drop)
  then have d': "distinct (map (doc_id \<circ> snd) (cur' @ reqs))"
    by (simp only: eqd drop_map)
  have dim': "\<forall>r \<in> set reqs. int (length (embedding (snd r))) = dimensions (config st')"
    using Cons.prems(7) by (simp add: st'_def)
  have mx': "maxDocuments (config st') = Some N"
    using Cons.prems(1) by (simp add: st'_def)
  have docs': "documents st' = map entryOf cur'"
    by (simp add: st'_def)
  have last_eq: "drop (length (cur' @ reqs) - nat N) (cur' @ reqs) = tgt"
    unfolding cur'_def k_def tgt_def
    using lastN_append [of "cur @ [(now, doc)]" "nat N" reqs]
    by (simp only: r append_assoc append_Cons append_Nil)
  have "addBatch st (r # reqs) = addBatch st' reqs"
    using step by (simp add: r)
  also have "\<dots> = (st'\<lparr>documents := map entryOf tgt\<rparr>, None)"
    using Cons.IH [OF mx' Cons.prems(2) docs' l' s' d' dim'] by (simp only: last_eq)
  also have "st'\<lparr>documents := map entryOf tgt\<rparr> = st\<lparr>documents := map entryOf tgt\<rparr>"
    by (simp add: st'_def)
  finally show ?case
    unfolding tgt_def .
qed

text \<open>The limit holds whatever the clock reads: at capacity \<open>add\<close> removes one entry before
  it writes one.\<close>

lemma length_Map_set: "length (Map_set m k v) \<le> Suc (length m)"
  by (induction m) auto

lemma length_Map_delete: "k \<in> fst ` set m \<Longrightarrow> length (Map_delete m k) < length m"
  unfolding Map_delete_def by (auto intro: length_filter_less)

lemma evictOldest_shrinks:
  assumes "keyedById m" and "m \<noteq> []"
  shows "length (evictOldest m) < length m"
proof -
  from assms(2) have "length (sort_key createdAt (Map_values m)) \<noteq> 0"
    by (simp add: Map_values_def)
  then obtain oldest rest where srt: "sort_key createdAt (Map_values m) = oldest # rest"
    by (cases "sort_key createdAt (Map_values m)") auto
  then have "oldest \<in> set (sort_key createdAt (Map_values m))" by simp
  then have "oldest \<in> snd ` set m" by (simp add: Map_values_def)
  then obtain kv where kv: "kv \<in> set m" "snd kv = oldest" by auto
  with assms(1) have "fst kv = doc_id oldest"
    by (auto simp: keyedById_def list_all_iff)
  with kv(1) have "doc_id oldest \<in> fst ` set m" by force
  then show ?thesis
    by (simp add: evictOldest_def srt length_Map_delete)
qed

lemma add_bounded:
  assumes mx: "maxDocuments (config st) = Some N" "0 < N"
    and keyed: "keyedById (documents st)"
    and sz: "size_store st \<le> N"
    and dim: "int (length (embedding doc)) = dimensions (config st)"
  shows "\<exists>st'. add st now doc = Inr st' \<and> config st' = config st
            \<and> keyedById (documents st') \<and> size_store st' \<le> N"
proof -
  define docs where "docs = (if atCapacity st then evictOldest (documents st) else documents st)"
  define st' where "st' = st\<lparr>documents := Map_set docs (doc_id doc) (stamp doc now)\<rparr>"
  have a: "add st now doc = Inr st'"
    using dim by (simp add: add_def st'_def docs_def)
  have "int (length docs) < N"
  proof (cases "atCapacity st")
    case True
    with mx sz have "int (length (documents st)) = N"
      by (simp add: atCapacity_def Map_size_def size_store_def)
    moreover from this mx(2) have "documents st \<noteq> []" by auto
    from evictOldest_shrinks [OF keyed this] have "length (evictOldest (documents st)) < length (documents st)" .
    ultimately show ?thesis using True by (simp add: docs_def)
  next
    case False
    with mx show ?thesis
      by (simp add: atCapacity_def Map_size_def docs_def)
  qed
  with length_Map_set [of docs "doc_id doc" "stamp doc now"] have "size_store st' \<le> N"
    by (simp add: size_store_def Map_size_def st'_def)
  moreover have "keyedById (documents st')"
    by (rule keyedById_add [OF keyed a])
  moreover have "config st' = config st"
    by (simp add: st'_def)
  ultimately show ?thesis
    using a by blast
qed

lemma addBatch_bounded:
  assumes "maxDocuments (config st) = Some N" "0 < N"
    and "keyedById (documents st)"
    and "size_store st \<le> N"
    and "\<forall>r \<in> set reqs. int (length (embedding (snd r))) = dimensions (config st)"
  shows "snd (addBatch st reqs) = None \<and> size_store (fst (addBatch st reqs)) \<le> N"
  using assms
proof (induction reqs arbitrary: st)
  case Nil
  then show ?case by simp
next
  case (Cons r reqs)
  obtain now doc where r: "r = (now, doc)" by (cases r)
  from Cons.prems(5) have "int (length (embedding doc)) = dimensions (config st)"
    by (simp add: r)
  from add_bounded [OF Cons.prems(1,2,3,4) this, of now] obtain st' where
    st': "add st now doc = Inr st'" "config st' = config st"
         "keyedById (documents st')" "size_store st' \<le> N"
    by blast
  have "snd (addBatch st' reqs) = None \<and> size_store (fst (addBatch st' reqs)) \<le> N"
    by (rule Cons.IH) (use st' Cons.prems in simp_all)
  with st'(1) show ?case by (simp add: r)
qed

text \<open>
  Claim C2, as amended. A store with \<open>maxDocuments = N > 0\<close> that holds at most \<open>N\<close>
  documents, each under its id (as every store does that the constructor and \<open>add\<close> have
  built), accepts every add of a document of the configured dimension and holds at most
  \<open>N\<close> documents afterwards, whatever the clock reads. If moreover the store starts empty,
  the ids of the adds are distinct and the clock readings of the adds do not decrease, the
  store holds afterwards exactly the last \<open>N\<close> documents added, in the order of their
  addition.
\<close>

theorem capacity_keeps_most_recent:
  assumes "maxDocuments (config st) = Some N" and "0 < N"
    and "keyedById (documents st)" and "size_store st \<le> N"
    and "\<forall>r \<in> set reqs. int (length (embedding (snd r))) = dimensions (config st)"
  shows "snd (addBatch st reqs) = None
       \<and> size_store (fst (addBatch st reqs)) \<le> N
       \<and> (documents st = [] \<and> distinct (map (doc_id \<circ> snd) reqs) \<and> sorted (map fst reqs) \<longrightarrow>
            size_store (fst (addBatch st reqs)) = min N (int (length reqs))
          \<and> export (fst (addBatch st reqs))
              = map (\<lambda>r. stamp (snd r) (fst r)) (drop (length reqs - nat N) reqs))"
proof (intro conjI impI)
  show "snd (addBatch st reqs) = None" and "size_store (fst (addBatch st reqs)) \<le> N"
    using addBatch_bounded [OF assms] by simp_all
next
  assume a: "documents st = [] \<and> distinct (map (doc_id \<circ> snd) reqs) \<and> sorted (map fst reqs)"
  have run: "addBatch st reqs =
        (st\<lparr>documents := map entryOf (drop (length ([] @ reqs) - nat N) ([] @ reqs))\<rparr>, None)"
    by (rule addBatch_run [OF assms(1,2)]) (use a assms in simp_all)
  then show "size_store (fst (addBatch st reqs)) = min N (int (length reqs))"
    using assms(2) by (auto simp: size_store_def Map_size_def)
  from run show "export (fst (addBatch st reqs))
              = map (\<lambda>r. stamp (snd r) (fst r)) (drop (length reqs - nat N) reqs)"
    by (simp add: export_def Map_values_def entryOf_def comp_def)
qed

theorem capacity_keeps_most_recent_witness:
  "maxDocuments (config limitedStore) = Some 2 \<and> (0::int) < 2
   \<and> keyedById (documents limitedStore) \<and> size_store limitedStore \<le> 2
   \<and> list_all (\<lambda>r. int (length (embedding (snd r))) = dimensions (config limitedStore)) threeAdds
   \<and> documents limitedStore = []
   \<and> distinct (map (doc_id \<circ> snd) threeAdds) \<and> sorted (map fst threeAdds)
   \<and> snd (addBatch limitedStore threeAdds) = None
   \<and> size_store (fst (addBatch limitedStore threeAdds)) = 2
   \<and> map doc_id (export (fst (addBatch limitedStore threeAdds))) = [''doc2'', ''doc3'']"
proof -
  have h1: "maxDocuments (config limitedStore) = Some 2" and h3: "documents limitedStore = []"
    by (simp_all add: limitedStore_def)
  have h2: "(0::int) < 2" by simp
  have h4: "keyedById (documents limitedStore)" and h5: "size_store limitedStore \<le> 2"
    by (simp_all add: limitedStore_def keyedById_def size_store_def Map_size_def)
  have h6: "\<forall>r \<in> set threeAdds. int (length (embedding (snd r))) = dimensions (config limitedStore)"
    by (simp add: threeAdds_def limitedStore_def)
  have h7: "sorted (map fst threeAdds)" and h8: "distinct (map (doc_id \<circ> snd) threeAdds)"
    by (simp_all add: threeAdds_def)
  note c = capacity_keeps_most_recent [OF h1 h2 h4 h5 h6]
  from c have ok: "snd (addBatch limitedStore threeAdds) = None"
    by blast
  from c h3 h7 h8 have "size_store (fst (addBatch limitedStore threeAdds)) = min 2 (int (length threeAdds))"
    by blast
  then have sz: "size_store (fst (addBatch limitedStore threeAdds)) = 2"
    by (simp add: threeAdds_def)
  from c h3 h7 h8 have ex: "export (fst (addBatch limitedStore threeAdds)) =
      map (\<lambda>r. stamp (snd r) (fst r)) (drop (length threeAdds - nat 2) threeAdds)"
    by blast
  have ids: "map doc_id (map (\<lambda>r. stamp (snd r) (fst r))
               (drop (length threeAdds - nat 2) threeAdds)) = [''doc2'', ''doc3'']"
    by (simp add: threeAdds_def stamp_def)
  have "map doc_id (export (fst (addBatch limitedStore threeAdds))) = [''doc2'', ''doc3'']"
    by (simp only: ex ids)
  moreover from h6 have "list_all (\<lambda>r. int (length (embedding (snd r))) =
      dimensions (config limitedStore)) threeAdds"
    by (simp only: list_all_iff)
  ultimately show ?thesis
    using h1 h2 h3 h4 h5 h7 h8 ok sz by blast
qed

text \<open>
  Claim C2 as stated fails in two ways. When the clock is set back between the adds (the
  readings 5, 3, 4), the second document is the oldest by \<open>createdAt\<close> when the third is
  added, so the survivors are the first and the third document, not the two added last.
  And \<open>import\<close> does not look at the limit: a store with \<open>maxDocuments = 2\<close> that holds
  three imported documents still holds three after two further adds.
\<close>

theorem capacity_counterexample:
  "maxDocuments (config limitedStore) = Some 2
   \<and> distinct (map (doc_id \<circ> snd) backwardAdds)
   \<and> snd (addBatch limitedStore backwardAdds) = None
   \<and> map doc_id (export (fst (addBatch limitedStore backwardAdds))) = [''doc1'', ''doc3'']
   \<and> map (doc_id \<circ> snd) (drop 1 backwardAdds) = [''doc2'', ''doc3'']
   \<and> maxDocuments (config overfullStore) = Some 2
   \<and> distinct (map (doc_id \<circ> snd) twoAdds)
   \<and> snd (addBatch overfullStore twoAdds) = None
   \<and> size_store (fst (addBatch overfullStore twoAdds)) = 3"
  by (simp add: limitedStore_def backwardAdds_def threeAdds_def overfullStore_def twoAdds_def
        import_def export_def add_def atCapacity_def evictOldest_def stamp_def size_store_def
        Map_size_def Map_values_def Map_delete_def)

text \<open>
  Claim C1 says that adding a document under an id that a full store already holds
  overwrites that entry and leaves the size and every other document as they are. The code
  does otherwise: the store \<open>fullStore\<close> has \<open>maxDocuments = 2\<close> and holds the two documents
  \<open>a\<close> and \<open>b\<close>; adding a document with the id \<open>b\<close> evicts \<open>a\<close>, the oldest document,
  before it overwrites \<open>b\<close>, and the store is left with one document.
\<close>

theorem add_existing_id_at_capacity:
  "size_store fullStore = 2 \<and> maxDocuments (config fullStore) = Some 2
   \<and> get fullStore ''b'' = Some docB
   \<and> add fullStore 3 inputB =
       Inr \<lparr>documents = [(''b'', stamp inputB 3)], config = config fullStore\<rparr>"
  by (simp add: add_def fullStore_def size_store_def Map_size_def get_def Map_get_def
        atCapacity_def evictOldest_def Map_values_def Map_delete_def docA_def docB_def inputB_def stamp_def)

section \<open>Search\<close>

lemma slice_take: "0 \<le> k \<Longrightarrow> slice xs 0 k = take (nat k) xs"
  by (simp add: slice_def relIndex_def min_def Let_def)

lemma scoreOf_ok:
  assumes "length q = length (embedding doc)"
  shows "\<exists>r. scoreOf m q doc = Inr r \<and> document r = doc \<and> isDouble (score r)
           \<and> (m = cosine \<longrightarrow> cosineSimilarity q (embedding doc) = Inr (score r))
           \<and> (m = euclidean \<longrightarrow> (\<exists>d. euclideanDistance q (embedding doc) = Inr d
                                    \<and> score r = jsDiv (Fin 1) (jsAdd (Fin 1) d)))"
proof (cases m)
  case cosine
  from assms have "\<exists>s. cosineSimilarity q (embedding doc) = Inr s \<and> isDouble s"
    by (simp add: cosineSimilarity_def Let_def isDouble_jsDiv onGrid_zero)
  then obtain s where "cosineSimilarity q (embedding doc) = Inr s" "isDouble s" by blast
  with cosine show ?thesis by (simp add: scoreOf_def)
next
  case euclidean
  from assms have "\<exists>d. euclideanDistance q (embedding doc) = Inr d"
    by (simp add: euclideanDistance_def)
  then obtain d where "euclideanDistance q (embedding doc) = Inr d" ..
  with euclidean show ?thesis by (simp add: scoreOf_def isDouble_jsDiv)
qed

lemma searchLoop_ok:
  assumes "\<forall>doc \<in> set docs. length (embedding doc) = length q"
  shows "\<exists>rs. searchLoop m q flt docs acc = Inr (acc @ rs)
              \<and> map document rs = filter (passes flt) docs
              \<and> (\<forall>r \<in> set rs. scoreOf m q (document r) = Inr r)"
  using assms
proof (induction docs arbitrary: acc)
  case Nil
  then show ?case by simp
next
  case (Cons doc docs)
  show ?case
  proof (cases "passes flt doc")
    case False
    then have skip: "(case flt of None \<Rightarrow> False | Some f \<Rightarrow> \<not> f doc)"
      by (auto simp: passes_def split: option.splits)
    from Cons.IH [of acc] Cons.prems obtain rs where
      "searchLoop m q flt docs acc = Inr (acc @ rs)"
      "map document rs = filter (passes flt) docs"
      "\<forall>r \<in> set rs. scoreOf m q (document r) = Inr r"
      by auto
    with skip False show ?thesis by auto
  next
    case True
    then have keep: "\<not> (case flt of None \<Rightarrow> False | Some f \<Rightarrow> \<not> f doc)"
      by (auto simp: passes_def split: option.splits)
    from Cons.prems have "length q = length (embedding doc)" by simp
    from scoreOf_ok [OF this, of m] obtain r where
      r: "scoreOf m q doc = Inr r" "document r = doc" by blast
    from Cons.IH [of "acc @ [r]"] Cons.prems obtain rs where
      rs: "searchLoop m q flt docs (acc @ [r]) = Inr ((acc @ [r]) @ rs)"
      "map document rs = filter (passes flt) docs"
      "\<forall>r \<in> set rs. scoreOf m q (document r) = Inr r"
      by auto
    have "searchLoop m q flt (doc # docs) acc = Inr (acc @ (r # rs))"
      using keep r rs(1) by simp
    moreover have "map document (r # rs) = filter (passes flt) (doc # docs)"
      using True r(2) rs(2) by simp
    moreover have "\<forall>x \<in> set (r # rs). scoreOf m q (document x) = Inr x"
      using r rs(3) by simp
    ultimately show ?thesis by blast
  qed
qed

text \<open>The scores of the examples.\<close>

lemma cosine_unit: "cosineSimilarity [Fin 1] [Fin 1] = Inr (Fin 1)"
  by (simp add: cosineSimilarity_def fl_one)

lemma cosine_overflow: "cosineSimilarity [huge] [huge] = Inr NaN"
proof -
  have "(2::real) ^ 600 * 2 ^ 600 = 2 ^ 1200" by (simp only: power_add [symmetric]) simp
  moreover have "(2::real) ^ 1024 \<le> 2 ^ 1200" by (rule power_increasing) simp_all
  ultimately have "jsMul huge huge = PInf"
    by (simp only: huge_def jsMul.simps fl_overflow)
  then show ?thesis
    by (simp add: cosineSimilarity_def)
qed

lemma cosine_zero: "cosineSimilarity [huge] [Fin 0] = Inr (Fin 0)"
proof -
  have "jsMul huge (Fin 0) = Fin 0" "jsMul (Fin 0) (Fin 0) = Fin 0"
    by (simp_all add: huge_def fl_zero)
  then show ?thesis
    by (simp add: cosineSimilarity_def fl_zero Let_def)
qed

lemma onGrid_one: "onGrid 1"
  unfolding onGrid_def by (rule exI [of _ "2 ^ 1074"]) simp

lemma consistent_all_same:
  assumes "\<forall>a \<in> set xs. \<forall>b \<in> set xs. \<not> jsLt (cmp a b) (Fin 0) \<and> \<not> jsLt (Fin 0) (cmp a b)"
  shows "consistentComparator cmp xs"
  using assms
  by (simp add: consistentComparator_def sortsSame_def sortsBefore_def sortsAfter_def jsGt_def)

text \<open>
  Claim C5, as amended. In a store whose documents all have the configured dimension, a
  search with a query of that dimension and a limit \<open>limit \<ge> 0\<close>, in which no document that
  passes the filter has the score \<^verbatim>\<open>NaN\<close>, returns, without an error and whatever the engine
  does with an inconsistent comparison function, at most \<open>limit\<close> results in the order of
  non-increasing score: as many as the limit allows of the documents that pass the filter,
  none when no document passes or the store is empty. The score of a result is the cosine
  similarity of the query and the document under the cosine metric and
  \<open>1 / (1 + distance)\<close> under the euclidean metric, in double arithmetic.
\<close>

theorem search_topK_sorted:
  assumes q: "int (length query) = dimensions (config st)"
    and inv: "\<forall>doc \<in> set (Map_values (documents st)). int (length (embedding doc)) = dimensions (config st)"
    and k: "0 \<le> limit"
    and nan: "\<forall>doc \<in> set (Map_values (documents st)). \<forall>r.
                passes flt doc \<and> scoreOf (similarityMetric (config st)) query doc = Inr r
                \<longrightarrow> score r \<noteq> NaN"
  shows "\<exists>results. search engineOrder st query limit flt = Inr results
     \<and> int (length results) \<le> limit
     \<and> sorted_wrt (\<lambda>a b. jsGe (score a) (score b)) results
     \<and> length results = min (nat limit) (length (filter (passes flt) (Map_values (documents st))))
     \<and> (filter (passes flt) (Map_values (documents st)) = [] \<longrightarrow> results = [])
     \<and> (\<forall>r \<in> set results.
           document r \<in> set (Map_values (documents st)) \<and> passes flt (document r)
         \<and> (similarityMetric (config st) = cosine \<longrightarrow>
               cosineSimilarity query (embedding (document r)) = Inr (score r))
         \<and> (similarityMetric (config st) = euclidean \<longrightarrow>
               (\<exists>d. euclideanDistance query (embedding (document r)) = Inr d
                    \<and> score r = jsDiv (Fin 1) (jsAdd (Fin 1) d))))"
proof -
  let ?m = "similarityMetric (config st)"
  let ?docs = "Map_values (documents st)"
  from q inv have dims: "\<forall>doc \<in> set ?docs. length (embedding doc) = length query"
    by auto
  from searchLoop_ok [OF dims, of ?m flt "[]"] obtain rs where
    loop: "searchLoop ?m query flt ?docs [] = Inr rs"
    and docs: "map document rs = filter (passes flt) ?docs"
    and sc: "\<forall>r \<in> set rs. scoreOf ?m query (document r) = Inr r"
    by auto
  have mem: "document r \<in> set ?docs \<and> passes flt (document r)" if "r \<in> set rs" for r
  proof -
    from that have "document r \<in> set (map document rs)" by simp
    then show ?thesis unfolding docs by simp
  qed
  have good: "\<forall>r \<in> set rs. isDouble (score r) \<and> score r \<noteq> NaN"
  proof
    fix r assume rin: "r \<in> set rs"
    from mem [OF rin] dims have "length query = length (embedding (document r))" by auto
    from scoreOf_ok [OF this, of ?m] sc rin have "isDouble (score r)" by auto
    moreover from nan mem [OF rin] sc rin have "score r \<noteq> NaN" by blast
    ultimately show "isDouble (score r) \<and> score r \<noteq> NaN" ..
  qed
  define results where "results = take (nat limit) (stableSort byScoreDescending rs)"
  have res: "search engineOrder st query limit flt = Inr results"
    using q loop k by (simp add: search_def slice_take results_def arraySort_byScoreDescending(1) [OF good])
  have len: "length results = min (nat limit) (length (filter (passes flt) ?docs))"
    unfolding results_def docs [symmetric] by (simp add: min.commute length_stableSort)
  have srt: "sorted_wrt (\<lambda>a b. jsGe (score a) (score b)) results"
    unfolding results_def
    using arraySort_byScoreDescending(2) [OF good] by (rule sorted_wrt_take)
  have sub: "set results \<subseteq> set rs"
    unfolding results_def using set_take_subset [of "nat limit" "stableSort byScoreDescending rs"]
    by (simp add: set_stableSort)
  have each: "document r \<in> set ?docs \<and> passes flt (document r)
         \<and> (?m = cosine \<longrightarrow> cosineSimilarity query (embedding (document r)) = Inr (score r))
         \<and> (?m = euclidean \<longrightarrow> (\<exists>d. euclideanDistance query (embedding (document r)) = Inr d
                    \<and> score r = jsDiv (Fin 1) (jsAdd (Fin 1) d)))" if "r \<in> set results" for r
  proof -
    from that sub have rin: "r \<in> set rs" by blast
    from mem [OF rin] dims have "length query = length (embedding (document r))" by auto
    from scoreOf_ok [OF this, of ?m] sc rin show ?thesis
      using mem [OF rin] by auto
  qed
  from len have empty: "filter (passes flt) ?docs = [] \<longrightarrow> results = []"
    by auto
  from len have "int (length results) \<le> limit"
    using k by simp
  with res srt len empty each show ?thesis
    by blast
qed

theorem search_topK_sorted_witness:
  "int (length [Fin 1]) = dimensions (config fullStore)
   \<and> list_all (\<lambda>doc. int (length (embedding doc)) = dimensions (config fullStore))
        (Map_values (documents fullStore))
   \<and> (0::int) \<le> 1
   \<and> list_all (\<lambda>doc. scoreOf (similarityMetric (config fullStore)) [Fin 1] doc
                       = Inr \<lparr>document = doc, score = Fin 1, distance = None\<rparr>)
        (Map_values (documents fullStore))
   \<and> (\<exists>results. search keepOrder fullStore [Fin 1] 1 None = Inr results \<and> length results = 1
          \<and> sorted_wrt (\<lambda>a b. jsGe (score a) (score b)) results)"
proof -
  have h1: "int (length [Fin 1]) = dimensions (config fullStore)"
    by (simp add: fullStore_def)
  have h2: "\<forall>doc \<in> set (Map_values (documents fullStore)).
              int (length (embedding doc)) = dimensions (config fullStore)"
    by (simp add: fullStore_def Map_values_def docA_def docB_def)
  have h3: "(0::int) \<le> 1" by simp
  have sc: "\<forall>doc \<in> set (Map_values (documents fullStore)).
              scoreOf (similarityMetric (config fullStore)) [Fin 1] doc
                = Inr \<lparr>document = doc, score = Fin 1, distance = None\<rparr>"
    by (simp add: fullStore_def Map_values_def docA_def docB_def scoreOf_def cosine_unit)
  then have h4: "\<forall>doc \<in> set (Map_values (documents fullStore)). \<forall>r.
                passes None doc \<and> scoreOf (similarityMetric (config fullStore)) [Fin 1] doc = Inr r
                \<longrightarrow> score r \<noteq> NaN"
    by auto
  have n: "min (nat 1) (length (filter (passes None) (Map_values (documents fullStore)))) = 1"
    by (simp add: fullStore_def Map_values_def passes_def)
  from search_topK_sorted [OF h1 h2 h3 h4, of keepOrder] obtain results where
    "search keepOrder fullStore [Fin 1] 1 None = Inr results"
    "sorted_wrt (\<lambda>a b. jsGe (score a) (score b)) results"
    "length results = min (nat 1) (length (filter (passes None) (Map_values (documents fullStore))))"
    by blast
  with n have "\<exists>results. search keepOrder fullStore [Fin 1] 1 None = Inr results \<and> length results = 1
          \<and> sorted_wrt (\<lambda>a b. jsGe (score a) (score b)) results"
    by auto
  moreover from h2 have "list_all (\<lambda>doc. int (length (embedding doc)) = dimensions (config fullStore))
        (Map_values (documents fullStore))"
    by (simp only: list_all_iff)
  moreover from sc have "list_all (\<lambda>doc. scoreOf (similarityMetric (config fullStore)) [Fin 1] doc
                       = Inr \<lparr>document = doc, score = Fin 1, distance = None\<rparr>)
        (Map_values (documents fullStore))"
    by (simp only: list_all_iff)
  ultimately show ?thesis
    using h1 h3 by blast
qed

text \<open>
  Claim C5 as stated fails in three ways. A store of dimension 1 into which a document with
  two components was imported answers a query of dimension 1 with the error of
  \<open>cosineSimilarity\<close>. With \<open>topK = - 1\<close> the slice drops the last of the two candidates
  and one result is returned, more than \<open>topK\<close>. And with the query \<open>[2 ^ 600]\<close> the
  document \<open>[2 ^ 600]\<close> scores \<^verbatim>\<open>Infinity / Infinity\<close>, which is \<^verbatim>\<open>NaN\<close>: every comparison with
  it gives \<^verbatim>\<open>NaN\<close>, the sort leaves the array as it is, and the result begins with the score
  \<^verbatim>\<open>NaN\<close>, which is not at least the score 0 that follows it.
\<close>

theorem search_counterexample:
  "dimensions (config importedStore) = int (length [Fin 1])
   \<and> search keepOrder importedStore [Fin 1] 5 None = Inl EmbeddingsMustHaveSameDimensions
   \<and> search keepOrder fullStore [Fin 1] (- 1) None
       = Inr [\<lparr>document = docA, score = Fin 1, distance = None\<rparr>]
   \<and> \<not> int (length [\<lparr>document = docA, score = Fin 1, distance = None\<rparr>]) \<le> - 1
   \<and> dimensions (config hugeStore) = int (length [huge])
   \<and> list_all (\<lambda>doc. int (length (embedding doc)) = dimensions (config hugeStore))
        (Map_values (documents hugeStore))
   \<and> search keepOrder hugeStore [huge] 5 None
       = Inr [\<lparr>document = hugeDoc, score = NaN, distance = None\<rparr>,
              \<lparr>document = zeroDoc, score = Fin 0, distance = None\<rparr>]
   \<and> \<not> sorted_wrt (\<lambda>a b. jsGe (score a) (score b))
           [\<lparr>document = hugeDoc, score = NaN, distance = None\<rparr>,
            \<lparr>document = zeroDoc, score = Fin 0, distance = None\<rparr>]"
proof -
  have a: "dimensions (config importedStore) = int (length [Fin 1])"
    by (simp add: importedStore_def import_def newStore_def)
  have b: "search keepOrder importedStore [Fin 1] 5 None = Inl EmbeddingsMustHaveSameDimensions"
    by (simp add: search_def importedStore_def import_def newStore_def Map_values_def wideDoc_def
          scoreOf_def cosineSimilarity_def)
  have c1: "consistentComparator byScoreDescending
          [\<lparr>document = docA, score = Fin 1, distance = None\<rparr>,
           \<lparr>document = docB, score = Fin 1, distance = None\<rparr>]"
    by (rule consistent_byScoreDescending) (simp add: onGrid_one)
  have c: "search keepOrder fullStore [Fin 1] (- 1) None
       = Inr [\<lparr>document = docA, score = Fin 1, distance = None\<rparr>]"
    using c1
    by (simp add: search_def fullStore_def Map_values_def scoreOf_def docA_def docB_def cosine_unit
          arraySort_def stableSort_def byScoreDescending_def jsSub_def fl_zero jsGt_def
          slice_def relIndex_def)
  have d1: "consistentComparator byScoreDescending
          [\<lparr>document = hugeDoc, score = NaN, distance = None\<rparr>,
           \<lparr>document = zeroDoc, score = Fin 0, distance = None\<rparr>]"
    by (rule consistent_all_same) (simp add: byScoreDescending_def jsSub_def fl_zero)
  have d: "search keepOrder hugeStore [huge] 5 None
       = Inr [\<lparr>document = hugeDoc, score = NaN, distance = None\<rparr>,
              \<lparr>document = zeroDoc, score = Fin 0, distance = None\<rparr>]"
    using d1
    by (simp add: search_def hugeStore_def Map_values_def scoreOf_def hugeDoc_def zeroDoc_def
          cosine_overflow cosine_zero arraySort_def stableSort_def byScoreDescending_def
          jsSub_def fl_zero jsGt_def slice_def relIndex_def)
  have e: "\<not> sorted_wrt (\<lambda>a b. jsGe (score a) (score b))
           [\<lparr>document = hugeDoc, score = NaN, distance = None\<rparr>,
            \<lparr>document = zeroDoc, score = Fin 0, distance = None\<rparr>]"
    by (simp add: jsGe_def)
  have f: "dimensions (config hugeStore) = int (length [huge])"
    "list_all (\<lambda>doc. int (length (embedding doc)) = dimensions (config hugeStore))
        (Map_values (documents hugeStore))"
    by (simp_all add: hugeStore_def Map_values_def hugeDoc_def zeroDoc_def)
  from a b c d e f show ?thesis by simp
qed

section \<open>Retrieval\<close>












section \<open>Merging small chunks\<close>

lemma mergeLoop_bound:
  "(case mergeLoop minSize cs merged (Some cur) of
      (m, c) \<Rightarrow> length m + (case c of None \<Rightarrow> 0 | Some x \<Rightarrow> 1))
   \<le> length merged + 1 + length cs"
proof (induction cs arbitrary: merged cur)
  case Nil
  then show ?case by simp
next
  case (Cons c cs)
  show ?case
  proof (cases "int (length (content cur)) < minSize")
    case True
    with Cons.IH [of merged "cur\<lparr>content := content cur @ newline @ newline @ content c,
                                  endOffset := endOffset c\<rparr>"]
    show ?thesis by simp
  next
    case False
    with Cons.IH [of "merged @ [cur]" "c\<lparr>index := int (length merged) + 1\<rparr>"]
    show ?thesis by simp
  qed
qed

lemma mergeLoop_strict:
  assumes "(int (length (content cur)) < minSize \<and> cs \<noteq> [])
         \<or> (\<exists>i. Suc i < length cs \<and> int (length (content (cs ! i))) < minSize)"
  shows "(case mergeLoop minSize cs merged (Some cur) of
            (m, c) \<Rightarrow> length m + (case c of None \<Rightarrow> 0 | Some x \<Rightarrow> 1))
         < length merged + 1 + length cs"
  using assms
proof (induction cs arbitrary: merged cur)
  case Nil
  then show ?case by simp
next
  case (Cons c cs)
  show ?case
  proof (cases "int (length (content cur)) < minSize")
    case True
    with mergeLoop_bound [of minSize cs merged
           "cur\<lparr>content := content cur @ newline @ newline @ content c, endOffset := endOffset c\<rparr>"]
    show ?thesis by simp
  next
    case False
    with Cons.prems obtain i where i: "Suc i < length (c # cs)"
        "int (length (content ((c # cs) ! i))) < minSize"
      by blast
    let ?c' = "c\<lparr>index := int (length merged) + 1\<rparr>"
    have "(int (length (content ?c')) < minSize \<and> cs \<noteq> [])
         \<or> (\<exists>j. Suc j < length cs \<and> int (length (content (cs ! j))) < minSize)"
    proof (cases i)
      case 0
      with i show ?thesis by auto
    next
      case (Suc j)
      with i show ?thesis by auto
    qed
    from Cons.IH [OF this, of "merged @ [cur]"] False
    show ?thesis by simp
  qed
qed

lemma length_mergeSmallChunks:
  "length (mergeSmallChunks chunks minSize) =
     (case mergeLoop minSize chunks [] None of
        (m, c) \<Rightarrow> length m + (case c of None \<Rightarrow> 0 | Some x \<Rightarrow> 1))"
  by (simp add: mergeSmallChunks_def split: prod.splits option.splits)

text \<open>
  Claim C8. \<open>mergeSmallChunks\<close> returns no more chunks than it is given, and strictly
  fewer when some chunk that has a successor is shorter than \<open>minSize\<close>; chunks of the
  lengths 5, 10 and 49 with \<open>minSize = 30\<close> give fewer than three chunks.
\<close>

theorem mergeSmallChunks_fewer:
  "length (mergeSmallChunks chunks minSize) \<le> length chunks
   \<and> ((\<exists>i. Suc i < length chunks \<and> int (length (content (chunks ! i))) < minSize) \<longrightarrow>
        length (mergeSmallChunks chunks minSize) < length chunks)
   \<and> (map (\<lambda>c. length (content c)) chunks = [5, 10, 49] \<longrightarrow>
        length (mergeSmallChunks chunks 30) < 3)"
proof -
  have le: "length (mergeSmallChunks cs m) \<le> length cs" for cs m
  proof (cases cs)
    case Nil
    then show ?thesis by (simp add: mergeSmallChunks_def)
  next
    case (Cons c rest)
    with mergeLoop_bound [of m rest "[]" c] show ?thesis
      by (simp add: length_mergeSmallChunks)
  qed
  have lt: "length (mergeSmallChunks cs m) < length cs"
    if "\<exists>i. Suc i < length cs \<and> int (length (content (cs ! i))) < m" for cs m
  proof (cases cs)
    case Nil
    with that show ?thesis by simp
  next
    case (Cons c rest)
    from that obtain i where i: "Suc i < length cs" "int (length (content (cs ! i))) < m"
      by blast
    have "(int (length (content c)) < m \<and> rest \<noteq> [])
         \<or> (\<exists>j. Suc j < length rest \<and> int (length (content (rest ! j))) < m)"
    proof (cases i)
      case 0
      with i Cons show ?thesis by auto
    next
      case (Suc j)
      with i Cons show ?thesis by auto
    qed
    from mergeLoop_strict [OF this, of "[]"] Cons show ?thesis
      by (simp add: length_mergeSmallChunks)
  qed
  have inst: "length (mergeSmallChunks chunks 30) < 3"
    if m: "map (\<lambda>c. length (content c)) chunks = [5, 10, 49]"
  proof -
    from m have l: "length chunks = 3"
      by (metis length_map length_Cons list.size(3) numeral_3_eq_3)
    from m have "length (content (chunks ! 0)) = 5"
      by (metis l nth_map nth_Cons_0 zero_less_numeral)
    with l have "\<exists>i. Suc i < length chunks \<and> int (length (content (chunks ! i))) < 30"
      by (intro exI [of _ 0]) simp
    from lt [OF this] l show ?thesis by simp
  qed
  from le lt inst show ?thesis by blast
qed

theorem mergeSmallChunks_fewer_witness:
  "map (\<lambda>c. length (content c)) [chunkOfLength 5 0, chunkOfLength 10 1, chunkOfLength 49 2] = [5, 10, 49]
   \<and> length (mergeSmallChunks [chunkOfLength 5 0, chunkOfLength 10 1, chunkOfLength 49 2] 30) < 3"
proof -
  have m: "map (\<lambda>c. length (content c)) [chunkOfLength 5 0, chunkOfLength 10 1, chunkOfLength 49 2] = [5, 10, 49]"
    by (simp add: chunkOfLength_def)
  with mergeSmallChunks_fewer [of "[chunkOfLength 5 0, chunkOfLength 10 1, chunkOfLength 49 2]" 30]
  show ?thesis by blast
qed

section \<open>Token estimator: split\<close>

lemma count_abc: "gpt_count ''a b c'' = 3" by code_simp
lemma truncate_abc: "gpt_truncate ''a b c'' 2 = []" by code_simp
lemma rest_abc: "trim (sliceFrom ''a b c'' 0) = ''a b c''" by code_simp

lemma splitLoop_stuck:
  assumes "splitLoop m r p = Some y"
  shows "\<not> (m = 2 \<and> r = ''a b c'')"
proof (rule splitLoop.raw_induct [where P = "\<lambda>m r p y. \<not> (m = 2 \<and> r = ''a b c'')", OF _ assms])
  fix loop :: "int \<Rightarrow> string \<Rightarrow> string list \<Rightarrow> string list option"
  fix m' r' p' y'
  assume IH: "\<And>m r p y. loop m r p = Some y \<Longrightarrow> \<not> (m = 2 \<and> r = ''a b c'')"
  assume body: "(if 0 < length r'
      then if gpt_count r' \<le> m' then Some (p' @ [r'])
           else let truncated = gpt_truncate r' m'
                in loop m' (trim (sliceFrom r' (int (length truncated)))) (p' @ [truncated])
      else Some p') = Some y'"
  show "\<not> (m' = 2 \<and> r' = ''a b c'')"
  proof
    assume a: "m' = 2 \<and> r' = ''a b c''"
    with body have "loop 2 ''a b c'' (p' @ [[]]) = Some y'"
      by (simp add: count_abc truncate_abc rest_abc)
    from IH [OF this] show False by simp
  qed
qed

text \<open>
  Claim C9 says that \<open>split\<close> returns for every text and every \<open>maxTokens\<close>. The code does
  otherwise on the text \<open>a b c\<close> with \<open>maxTokens = 2\<close>: the text counts three tokens,
  \<open>truncate\<close> returns the empty string (the bisection is skipped for a text of at most ten
  characters and leaves \<open>low = 0\<close>), so the remainder never shrinks and the loop never ends.
\<close>

theorem gpt_split_never_returns:
  "gpt_count ''a b c'' = 3 \<and> gpt_truncate ''a b c'' 2 = [] \<and> gpt_split ''a b c'' 2 = None"
proof -
  have "splitLoop 2 ''a b c'' [] = None"
  proof (cases "splitLoop 2 ''a b c'' []")
    case None
    then show ?thesis .
  next
    case (Some y)
    from splitLoop_stuck [OF this] show ?thesis by simp
  qed
  then show ?thesis
    by (simp add: gpt_split_def count_abc truncate_abc)
qed

section \<open>Strings: slices, trimming, splitting\<close>

lemma set_slice: "set (slice xs s e) \<subseteq> set xs"
proof -
  have "set (take n (drop m xs)) \<subseteq> set xs" for n m
    using set_take_subset [of n "drop m xs"] set_drop_subset [of m xs] by blast
  then show ?thesis by (simp add: slice_def Let_def)
qed

lemma length_slice: "0 \<le> s \<Longrightarrow> 0 \<le> m \<Longrightarrow> int (length (slice xs s (s + m))) \<le> m"
  by (auto simp: slice_def Let_def relIndex_def min_def nat_add_distrib)

lemma set_sliceFrom: "set (sliceFrom xs s) \<subseteq> set xs"
  by (simp add: sliceFrom_def set_drop_subset)

lemma length_sliceFrom: "0 < k \<Longrightarrow> int (length (sliceFrom xs (- k))) \<le> k"
  by (auto simp: sliceFrom_def relIndex_def)

lemma length_trim: "length (trim s) \<le> length s"
proof -
  have "length (dropWhile isWhitespace (rev (dropWhile isWhitespace s)))
        \<le> length (rev (dropWhile isWhitespace s))"
    by (rule length_dropWhile_le)
  also have "\<dots> \<le> length s"
    by (simp add: length_dropWhile_le)
  finally show ?thesis by (simp add: trim_def)
qed

lemma trim_blank: "\<forall>c \<in> set s. isWhitespace c \<Longrightarrow> trim s = []"
  by (auto simp: trim_def dest: set_dropWhileD)

lemma last_dropWhile: "dropWhile P xs \<noteq> [] \<Longrightarrow> last (dropWhile P xs) = last xs"
  by (metis last_appendR takeWhile_dropWhile_id)

lemma trim_ends:
  assumes "trim s \<noteq> []"
  shows "\<not> isWhitespace (hd (trim s)) \<and> \<not> isWhitespace (last (trim s))"
proof -
  define t where "t = dropWhile isWhitespace s"
  define u where "u = dropWhile isWhitespace (rev t)"
  have tr: "trim s = rev u" by (simp add: trim_def t_def u_def)
  with assms have u: "u \<noteq> []" by simp
  then have t: "t \<noteq> []" unfolding u_def by auto
  from u have "\<not> isWhitespace (hd u)"
    unfolding u_def by (rule hd_dropWhile)
  then have l: "\<not> isWhitespace (last (trim s))"
    using u by (simp add: tr last_rev)
  from u have "last u = last (rev t)"
    unfolding u_def by (rule last_dropWhile)
  then have "hd (trim s) = hd t"
    using u t by (simp add: tr hd_rev last_rev)
  moreover from t have "\<not> isWhitespace (hd t)"
    unfolding t_def by (rule hd_dropWhile)
  ultimately show ?thesis using l by simp
qed

lemma set_splitAux: "\<forall>p \<in> set (splitAux sep acc str). set p \<subseteq> set acc \<union> set str"
proof (induction sep acc str rule: splitAux.induct)
  case (1 sep acc)
  then show ?case by simp
next
  case (2 sep acc c cs)
  show ?case
  proof (cases "take (length sep) (c # cs) = sep")
    case True
    with 2(1) have "\<forall>p \<in> set (splitAux sep [] (drop (length sep - 1) cs)). set p \<subseteq> set cs"
      using set_drop_subset [of "length sep - 1" cs] by auto
    with True show ?thesis by auto
  next
    case False
    with 2(2) show ?thesis by auto
  qed
qed

lemma set_splitOn: "\<forall>p \<in> set (splitOn str sep). set p \<subseteq> set str"
  using set_splitAux [of sep "[]" str] by (auto simp: splitOn_def)

lemma splitAux_absent: "\<not> set sep \<subseteq> set str \<Longrightarrow> splitAux sep acc str = [acc @ str]"
proof (induction str arbitrary: acc)
  case Nil
  then show ?case by simp
next
  case (Cons c cs)
  have "take (length sep) (c # cs) \<noteq> sep"
  proof
    assume "take (length sep) (c # cs) = sep"
    then have "set sep \<subseteq> set (c # cs)"
      by (metis set_take_subset)
    with Cons.prems show False by simp
  qed
  moreover from Cons.prems have "\<not> set sep \<subseteq> set cs" by auto
  ultimately show ?case using Cons.IH [of "acc @ [c]"] by simp
qed

lemma splitOn_absent: "\<not> set sep \<subseteq> set str \<Longrightarrow> splitOn str sep = [str]"
  using splitAux_absent [of sep str "[]"] by (auto simp: splitOn_def)

lemma splitAux_first:
  assumes "sep \<noteq> []" "hd sep \<notin> set xs"
  shows "splitAux sep acc (xs @ sep @ rest) = (acc @ xs) # splitAux sep [] rest"
  using assms(2)
proof (induction xs arbitrary: acc)
  case Nil
  from assms(1) obtain c sep' where sep: "sep = c # sep'" by (cases sep) auto
  then show ?case by simp
next
  case (Cons x xs)
  from assms(1) obtain c sep' where sep: "sep = c # sep'" by (cases sep) auto
  with Cons.prems have "x \<noteq> c" by auto
  then have "take (length sep) ((x # xs) @ sep @ rest) \<noteq> sep"
    by (simp add: sep)
  with Cons.IH [of "acc @ [x]"] Cons.prems show ?case by simp
qed

section \<open>Chunker: the raw chunks\<close>

text \<open>With a valid configuration the recursive split returns, and each raw chunk is no
  longer than \<open>maxChunkSize\<close> and made of characters of the text (\<open>S\<close> is any set that
  holds them). The pieces of the hard split are slices of \<open>maxChunkSize\<close> characters, so
  they obey the bound as well.\<close>

lemma hardSplit_sound:
  assumes stride: "0 < maxChunkSize cfg - chunkOverlap cfg" and mx: "0 \<le> maxChunkSize cfg"
    and i: "0 \<le> i"
  shows "\<exists>rs. hardSplit cfg str i result = Some (result @ rs)
            \<and> (\<forall>r \<in> set rs. int (length r) \<le> maxChunkSize cfg \<and> set r \<subseteq> set str)"
  using i
proof (induction "nat (int (length str) - i)" arbitrary: i result rule: less_induct)
  case less
  show ?case
  proof (cases "i < int (length str)")
    case True
    define i' where "i' = i + (maxChunkSize cfg - chunkOverlap cfg)"
    define piece where "piece = slice str i (i + maxChunkSize cfg)"
    have smaller: "nat (int (length str) - i') < nat (int (length str) - i)"
      using True stride by (simp add: i'_def)
    have "0 \<le> i'"
      using less.prems stride by (simp add: i'_def)
    from less.hyps [OF smaller this, of "result @ [piece]"] obtain rs where
      rs: "hardSplit cfg str i' (result @ [piece]) = Some ((result @ [piece]) @ rs)"
          "\<forall>r \<in> set rs. int (length r) \<le> maxChunkSize cfg \<and> set r \<subseteq> set str"
      by blast
    have "hardSplit cfg str i result = hardSplit cfg str i' (result @ [piece])"
      using True by (subst hardSplit.simps) (simp add: i'_def piece_def)
    with rs(1) have "hardSplit cfg str i result = Some (result @ (piece # rs))"
      by simp
    moreover have "int (length piece) \<le> maxChunkSize cfg \<and> set piece \<subseteq> set str"
      unfolding piece_def by (simp add: length_slice [OF less.prems mx] set_slice)
    ultimately show ?thesis
      using rs(2) by (intro exI [of _ "piece # rs"]) simp
  next
    case False
    then have "hardSplit cfg str i result = Some (result @ [])"
      by (subst hardSplit.simps) simp
    then show ?thesis by (intro exI [of _ "[]"]) simp
  qed
qed

lemma accumulate_sound:
  assumes rec: "\<And>part. set part \<subseteq> S \<Longrightarrow>
              \<exists>subs. recurse part = Some subs
                   \<and> (\<forall>r \<in> set subs. int (length r) \<le> maxChunkSize cfg \<and> set r \<subseteq> S)"
    and sep: "set separator \<subseteq> S"
    and mx: "0 \<le> maxChunkSize cfg"
    and parts: "\<forall>p \<in> set parts. set p \<subseteq> S"
    and res: "\<forall>r \<in> set result. int (length r) \<le> maxChunkSize cfg \<and> set r \<subseteq> S"
    and cur: "int (length current) \<le> maxChunkSize cfg" "set current \<subseteq> S"
  shows "\<exists>rs. accumulate cfg separator recurse parts result current = Some rs
            \<and> (\<forall>r \<in> set rs. int (length r) \<le> maxChunkSize cfg \<and> set r \<subseteq> S)"
  using parts res cur
proof (induction parts arbitrary: result current)
  case Nil
  then show ?case by simp
next
  case (Cons part parts)
  define potential where
    "potential = (if current \<noteq> [] then current @ separator @ part else part)"
  define result1 where "result1 = (if current \<noteq> [] then result @ [current] else result)"
  from Cons.prems(1) have part: "set part \<subseteq> S" and rest: "\<forall>p \<in> set parts. set p \<subseteq> S"
    by simp_all
  have pot: "set potential \<subseteq> S"
    using part sep Cons.prems(4) by (simp add: potential_def)
  have res1: "\<forall>r \<in> set result1. int (length r) \<le> maxChunkSize cfg \<and> set r \<subseteq> S"
    using Cons.prems(2,3,4) by (simp add: result1_def)
  show ?case
  proof (cases "int (length potential) \<le> maxChunkSize cfg")
    case True
    from Cons.IH [OF rest Cons.prems(2) True pot] True show ?thesis
      by (simp add: potential_def Let_def)
  next
    case False
    show ?thesis
    proof (cases "int (length part) > maxChunkSize cfg")
      case True
      from rec [OF part] obtain subs where
        subs: "recurse part = Some subs"
              "\<forall>r \<in> set subs. int (length r) \<le> maxChunkSize cfg \<and> set r \<subseteq> S"
        by blast
      from res1 subs(2)
      have "\<forall>r \<in> set (result1 @ subs). int (length r) \<le> maxChunkSize cfg \<and> set r \<subseteq> S"
        by auto
      from Cons.IH [OF rest this, of "[]"] mx
      obtain rs where "accumulate cfg separator recurse parts (result1 @ subs) [] = Some rs"
        "\<forall>r \<in> set rs. int (length r) \<le> maxChunkSize cfg \<and> set r \<subseteq> S"
        by auto
      with False True subs(1) show ?thesis
        by (simp add: potential_def result1_def Let_def)
    next
      case short: False
      then have "int (length part) \<le> maxChunkSize cfg" by simp
      from Cons.IH [OF rest res1 this part]
      obtain rs where "accumulate cfg separator recurse parts result1 part = Some rs"
        "\<forall>r \<in> set rs. int (length r) \<le> maxChunkSize cfg \<and> set r \<subseteq> S"
        by blast
      with False short show ?thesis
        by (simp add: potential_def result1_def Let_def)
    qed
  qed
qed

lemma accumulate_single:
  assumes "int (length part) > maxChunkSize cfg"
  shows "accumulate cfg separator recurse [part] [] [] = recurse part"
  using assms by (cases "recurse part") (simp_all add: Let_def)

lemma splitRecursively_short:
  "int (length str) \<le> maxChunkSize cfg \<Longrightarrow> splitRecursively cfg seps str = Some [str]"
  by (cases seps) simp_all

lemma splitRecursively_sound:
  assumes valid: "validConfig cfg" and str: "set str \<subseteq> S"
  shows "\<exists>rs. splitRecursively cfg seps str = Some rs
            \<and> (\<forall>r \<in> set rs. int (length r) \<le> maxChunkSize cfg \<and> set r \<subseteq> S)"
  using str
proof (induction seps arbitrary: str)
  case Nil
  show ?case
  proof (cases "int (length str) \<le> maxChunkSize cfg")
    case True
    with Nil show ?thesis by simp
  next
    case False
    from valid have "0 < maxChunkSize cfg - chunkOverlap cfg" "0 \<le> maxChunkSize cfg"
      by (simp_all add: validConfig_def)
    from hardSplit_sound [OF this, of 0 str "[]"] Nil False show ?thesis
      by auto
  qed
next
  case (Cons sep seps)
  show ?case
  proof (cases "int (length str) \<le> maxChunkSize cfg")
    case True
    with Cons.prems show ?thesis by simp
  next
    case long: False
    show ?thesis
    proof (cases "set sep \<subseteq> S")
      case True
      from valid have mx: "0 \<le> maxChunkSize cfg" by (simp add: validConfig_def)
      have parts: "\<forall>p \<in> set (splitOn str sep). set p \<subseteq> S"
        using set_splitOn [of str sep] Cons.prems by blast
      have "\<exists>rs. accumulate cfg sep (splitRecursively cfg seps) (splitOn str sep) [] [] = Some rs
            \<and> (\<forall>r \<in> set rs. int (length r) \<le> maxChunkSize cfg \<and> set r \<subseteq> S)"
        by (rule accumulate_sound [OF Cons.IH True mx parts]) (use mx in simp_all)
      with long show ?thesis by simp
    next
      case False
      with Cons.prems have "\<not> set sep \<subseteq> set str" by blast
      then have "splitOn str sep = [str]" by (rule splitOn_absent)
      with long have "splitRecursively cfg (sep # seps) str = splitRecursively cfg seps str"
        by (simp add: accumulate_single del: accumulate.simps)
      with Cons.IH [OF Cons.prems] show ?thesis by simp
    qed
  qed
qed

lemma buildChunks_sound:
  assumes raws: "\<forall>r \<in> set raws. int (length r) \<le> M \<and> set r \<subseteq> S"
    and prev: "\<forall>p. prev = Some p \<longrightarrow> set p \<subseteq> S"
    and ov: "0 \<le> chunkOverlap cfg"
  shows "\<forall>c \<in> set (buildChunks cfg prev i off raws).
           \<exists>s. content c = trim s \<and> int (length s) \<le> M + chunkOverlap cfg \<and> set s \<subseteq> S"
  using raws prev
proof (induction raws arbitrary: prev i off)
  case Nil
  then show ?case by simp
next
  case (Cons raw raws)
  define s where "s = (case prev of None \<Rightarrow> raw
      | Some prevChunk \<Rightarrow> if chunkOverlap cfg > 0
                          then sliceFrom prevChunk (- chunkOverlap cfg) @ raw else raw)"
  from Cons.prems(1) have raw: "int (length raw) \<le> M" "set raw \<subseteq> S" by simp_all
  have len: "int (length s) \<le> M + chunkOverlap cfg"
  proof (cases prev)
    case None
    with raw(1) ov show ?thesis by (simp add: s_def)
  next
    case (Some p)
    show ?thesis
    proof (cases "chunkOverlap cfg > 0")
      case True
      from length_sliceFrom [OF True, of p] raw(1) Some True show ?thesis
        by (simp add: s_def)
    next
      case False
      with raw(1) ov Some show ?thesis by (simp add: s_def)
    qed
  qed
  have sub: "set s \<subseteq> S"
  proof (cases prev)
    case None
    with raw(2) show ?thesis by (simp add: s_def)
  next
    case (Some p)
    with Cons.prems(2) have "set p \<subseteq> S" by simp
    with set_sliceFrom [of p "- chunkOverlap cfg"] raw(2) Some show ?thesis
      by (auto simp: s_def)
  qed
  have rest: "\<forall>c \<in> set (buildChunks cfg (Some raw) (i + 1) (off + int (length raw)) raws).
           \<exists>s. content c = trim s \<and> int (length s) \<le> M + chunkOverlap cfg \<and> set s \<subseteq> S"
    using Cons.prems(1) raw(2) by (intro Cons.IH) simp_all
  have "buildChunks cfg prev i off (raw # raws) =
          \<lparr>content = trim s, index = i, startOffset = off, endOffset = off + int (length raw),
           metadata = None\<rparr>
          # buildChunks cfg (Some raw) (i + 1) (off + int (length raw)) raws"
    by (simp add: s_def Let_def)
  with len sub rest show ?case by auto
qed

lemma chunkText_sound:
  assumes valid: "validConfig cfg" and str: "set str \<subseteq> S"
  shows "\<exists>chunks. chunkText str cfg = Some chunks
          \<and> (\<forall>c \<in> set chunks. content c \<noteq> []
                \<and> (\<exists>s. content c = trim s \<and> int (length s) \<le> maxChunkSize cfg + chunkOverlap cfg
                        \<and> set s \<subseteq> S))"
proof -
  from splitRecursively_sound [OF valid str, of "separators cfg"] obtain rs where
    rs: "splitRecursively cfg (separators cfg) str = Some rs"
        "\<forall>r \<in> set rs. int (length r) \<le> maxChunkSize cfg \<and> set r \<subseteq> S"
    by blast
  from valid have "0 \<le> chunkOverlap cfg" by (simp add: validConfig_def)
  from buildChunks_sound [OF rs(2) _ this, of None 0 0]
  have "\<forall>c \<in> set (buildChunks cfg None 0 0 rs).
           \<exists>s. content c = trim s \<and> int (length s) \<le> maxChunkSize cfg + chunkOverlap cfg \<and> set s \<subseteq> S"
    by simp
  with rs(1) show ?thesis
    by (simp add: chunkText_def)
qed

lemma chunkText_short:
  assumes "int (length str) \<le> maxChunkSize cfg"
  shows "chunkText str cfg =
           Some (if trim str = [] then []
                 else [\<lparr>content = trim str, index = 0, startOffset = 0,
                        endOffset = int (length str), metadata = None\<rparr>])"
  using assms by (simp add: chunkText_def splitRecursively_short Let_def)

lemma splitRecursively_no_separator:
  assumes "\<forall>sep \<in> set seps. \<not> set sep \<subseteq> set str" and "int (length str) > maxChunkSize cfg"
  shows "splitRecursively cfg seps str = hardSplit cfg str 0 []"
  using assms(1)
proof (induction seps)
  case Nil
  with assms(2) show ?case by simp
next
  case (Cons sep seps)
  then have "splitOn str sep = [str]" by (simp add: splitOn_absent)
  with assms(2) have "splitRecursively cfg (sep # seps) str = splitRecursively cfg seps str"
    by (simp add: accumulate_single del: accumulate.simps)
  with Cons show ?case by simp
qed

lemma hardSplit_500:
  "hardSplit cfg200 (replicate 500 c) 0 [] =
     Some [replicate 200 c, replicate 200 c, replicate 100 c]"
  by (simp add: hardSplit.simps cfg200_def defaultConfig_def slice_def relIndex_def)

lemma split_500:
  assumes "c \<noteq> CHR '' ''" "c \<noteq> CHR '',''" "c \<noteq> CHR ''.''" "c \<noteq> CHR 0x0A"
  shows "splitRecursively cfg200 [newline, ''. '', '', '', '' ''] (replicate 500 c) =
     Some [replicate 200 c, replicate 200 c, replicate 100 c]"
proof -
  have "\<forall>sep \<in> set [newline, ''. '', '', '', '' '']. \<not> set sep \<subseteq> set (replicate 500 c)"
    using assms by (auto simp: newline_def)
  moreover have "int (length (replicate 500 c)) > maxChunkSize cfg200"
    by (simp add: cfg200_def)
  ultimately show ?thesis
    by (simp only: splitRecursively_no_separator hardSplit_500)
qed

lemma splitOn_AB: "splitOn textAB (newline @ newline) = [replicate 500 CHR ''A'', replicate 500 CHR ''B'']"
proof -
  have "splitAux (newline @ newline) [] (replicate 500 CHR ''A'' @ (newline @ newline) @ replicate 500 CHR ''B'')
        = ([] @ replicate 500 CHR ''A'') # splitAux (newline @ newline) [] (replicate 500 CHR ''B'')"
    by (rule splitAux_first) (simp_all add: newline_def)
  moreover have "splitAux (newline @ newline) [] (replicate 500 CHR ''B'') = [[] @ replicate 500 CHR ''B'']"
    by (rule splitAux_absent) (simp add: newline_def)
  ultimately show ?thesis
    by (simp add: splitOn_def textAB_def newline_def)
qed

lemma trim_replicate: "\<not> isWhitespace c \<Longrightarrow> trim (replicate n c) = replicate n c"
  by (simp add: trim_def)

lemma accumulate_two_long:
  assumes "int (length p1) > maxChunkSize cfg" "int (length p2) > maxChunkSize cfg"
    and "recurse p1 = Some s1" "recurse p2 = Some s2"
  shows "accumulate cfg sep recurse [p1, p2] [] [] = Some (s1 @ s2)"
  using assms by (simp add: Let_def)

lemma chunkText_AB:
  "chunkText textAB cfg200 =
     Some [rawChunk (replicate 200 CHR ''A'') 0 0 200, rawChunk (replicate 200 CHR ''A'') 1 200 400,
           rawChunk (replicate 100 CHR ''A'') 2 400 500, rawChunk (replicate 200 CHR ''B'') 3 500 700,
           rawChunk (replicate 200 CHR ''B'') 4 700 900, rawChunk (replicate 100 CHR ''B'') 5 900 1000]"
proof -
  have seps: "separators cfg200 = (newline @ newline) # [newline, ''. '', '', '', '' '']"
    by (simp add: cfg200_def defaultConfig_def)
  have long: "\<not> int (length textAB) \<le> maxChunkSize cfg200"
    by (simp add: textAB_def cfg200_def newline_def)
  have mx: "maxChunkSize cfg200 = 200" and ov: "chunkOverlap cfg200 = 0"
    by (simp_all add: cfg200_def)
  have top: "splitRecursively cfg200 (separators cfg200) textAB =
       accumulate cfg200 (newline @ newline) (splitRecursively cfg200 [newline, ''. '', '', '', '' ''])
         [replicate 500 CHR ''A'', replicate 500 CHR ''B''] [] []"
    unfolding seps using long by (simp add: splitOn_AB del: accumulate.simps)
  have raw: "splitRecursively cfg200 (separators cfg200) textAB =
     Some ([replicate 200 CHR ''A'', replicate 200 CHR ''A'', replicate 100 CHR ''A'']
           @ [replicate 200 CHR ''B'', replicate 200 CHR ''B'', replicate 100 CHR ''B''])"
    unfolding top
  proof (rule accumulate_two_long)
    show "maxChunkSize cfg200 < int (length (replicate 500 CHR ''A''))"
      and "maxChunkSize cfg200 < int (length (replicate 500 CHR ''B''))"
      by (simp_all add: mx)
    show "splitRecursively cfg200 [newline, ''. '', '', '', '' ''] (replicate 500 CHR ''A'') =
            Some [replicate 200 CHR ''A'', replicate 200 CHR ''A'', replicate 100 CHR ''A'']"
      by (rule split_500) simp_all
    show "splitRecursively cfg200 [newline, ''. '', '', '', '' ''] (replicate 500 CHR ''B'') =
            Some [replicate 200 CHR ''B'', replicate 200 CHR ''B'', replicate 100 CHR ''B'']"
      by (rule split_500) simp_all
  qed
  have ws: "\<not> isWhitespace CHR ''A''" "\<not> isWhitespace CHR ''B''"
    by (simp_all add: isWhitespace_def)
  show ?thesis
    by (simp add: chunkText_def raw ov Let_def trim_replicate ws rawChunk_def)
qed

section \<open>Chunker: length of the chunks\<close>

text \<open>
  Claim C4, as amended. For every text and every valid configuration \<open>chunkText\<close> returns,
  and every chunk has a content of at most \<open>maxChunkSize + chunkOverlap\<close> characters, so
  of at most \<open>maxChunkSize\<close> characters when \<open>chunkOverlap = 0\<close>, the chunks of a hard
  split included. Chunking 500 times \<open>A\<close>, a blank line and 500 times \<open>B\<close> with
  \<open>maxChunkSize = 200\<close> and \<open>chunkOverlap = 0\<close> gives more than one chunk, each of at
  most 200 characters.
\<close>

theorem chunkText_length_bound:
  assumes "validConfig cfg"
  shows "(\<exists>chunks. chunkText str cfg = Some chunks
           \<and> (\<forall>c \<in> set chunks. int (length (content c)) \<le> maxChunkSize cfg + chunkOverlap cfg)
           \<and> (chunkOverlap cfg = 0 \<longrightarrow>
                 (\<forall>c \<in> set chunks. int (length (content c)) \<le> maxChunkSize cfg)))
       \<and> (\<exists>chunks. chunkText textAB cfg200 = Some chunks \<and> 1 < length chunks
           \<and> (\<forall>c \<in> set chunks. int (length (content c)) \<le> 200))"
proof
  from chunkText_sound [OF assms, of str UNIV] obtain chunks where
    ch: "chunkText str cfg = Some chunks"
        "\<forall>c \<in> set chunks. content c \<noteq> []
           \<and> (\<exists>s. content c = trim s \<and> int (length s) \<le> maxChunkSize cfg + chunkOverlap cfg
                   \<and> set s \<subseteq> UNIV)"
    by auto
  have "int (length (content c)) \<le> maxChunkSize cfg + chunkOverlap cfg" if "c \<in> set chunks" for c
  proof -
    from ch(2) that obtain s where
      "content c = trim s" "int (length s) \<le> maxChunkSize cfg + chunkOverlap cfg"
      by blast
    with length_trim [of s] show ?thesis by simp
  qed
  with ch(1) show "\<exists>chunks. chunkText str cfg = Some chunks
           \<and> (\<forall>c \<in> set chunks. int (length (content c)) \<le> maxChunkSize cfg + chunkOverlap cfg)
           \<and> (chunkOverlap cfg = 0 \<longrightarrow>
                 (\<forall>c \<in> set chunks. int (length (content c)) \<le> maxChunkSize cfg))"
    by auto
next
  show "\<exists>chunks. chunkText textAB cfg200 = Some chunks \<and> 1 < length chunks
           \<and> (\<forall>c \<in> set chunks. int (length (content c)) \<le> 200)"
    by (simp add: chunkText_AB rawChunk_def)
qed

theorem chunkText_length_bound_witness:
  "validConfig cfgSmall
   \<and> (\<exists>chunks. chunkText ''aaaa bbbb'' cfgSmall = Some chunks
         \<and> list_all (\<lambda>c. int (length (content c)) \<le> 6) chunks)"
proof -
  have v: "validConfig cfgSmall"
    by (simp add: validConfig_def cfgSmall_def)
  from chunkText_length_bound [OF v, of "''aaaa bbbb''"] obtain chunks where
    "chunkText ''aaaa bbbb'' cfgSmall = Some chunks"
    "\<forall>c \<in> set chunks. int (length (content c)) \<le> maxChunkSize cfgSmall + chunkOverlap cfgSmall"
    by blast
  then have "chunkText ''aaaa bbbb'' cfgSmall = Some chunks
         \<and> list_all (\<lambda>c. int (length (content c)) \<le> 6) chunks"
    by (simp add: list_all_iff cfgSmall_def)
  with v show ?thesis by blast
qed

text \<open>
  Claim C4 as stated fails: with \<open>maxChunkSize = 4\<close> and \<open>chunkOverlap = 2\<close> the text
  \<open>aaaa bbbb\<close> splits at the space into two raw chunks of four characters. No part is
  longer than \<open>maxChunkSize\<close>, so the loop never recurses (it returns the same with a
  \<open>recurse\<close> that would not return) and no hard split is made; the second chunk gets the
  last two characters of the first one in front and has six characters.
\<close>

theorem chunkText_overlap_counterexample:
  "validConfig cfgSmall
   \<and> splitOn ''aaaa bbbb'' '' '' = [''aaaa'', ''bbbb'']
   \<and> accumulate cfgSmall '' '' neverReturns [''aaaa'', ''bbbb''] [] [] = Some [''aaaa'', ''bbbb'']
   \<and> chunkText ''aaaa bbbb'' cfgSmall = Some [rawChunk ''aaaa'' 0 0 4, rawChunk ''aabbbb'' 1 4 8]
   \<and> \<not> int (length (content (rawChunk ''aabbbb'' 1 4 8))) \<le> maxChunkSize cfgSmall"
proof -
  have sp: "splitOn ''aaaa bbbb'' '' '' = [''aaaa'', ''bbbb'']"
    by (simp add: splitOn_def)
  have acc: "accumulate cfgSmall '' '' recurse [''aaaa'', ''bbbb''] [] [] = Some [''aaaa'', ''bbbb'']"
    for recurse
    by (simp add: cfgSmall_def)
  have raw: "splitRecursively cfgSmall (separators cfgSmall) ''aaaa bbbb'' = Some [''aaaa'', ''bbbb'']"
    using acc [of "splitRecursively cfgSmall []"] by (simp add: cfgSmall_def sp del: accumulate.simps)
  have tr: "trim ''aaaa'' = ''aaaa''" "trim ''aabbbb'' = ''aabbbb''"
    by (simp_all add: trim_def isWhitespace_def)
  have built: "buildChunks cfgSmall None 0 0 [''aaaa'', ''bbbb''] =
                 [rawChunk ''aaaa'' 0 0 4, rawChunk ''aabbbb'' 1 4 8]"
    by (simp add: rawChunk_def tr sliceFrom_def relIndex_def cfgSmall_def Let_def)
  have "chunkText ''aaaa bbbb'' cfgSmall =
          Some (filter (\<lambda>c. 0 < length (content c)) (buildChunks cfgSmall None 0 0 [''aaaa'', ''bbbb'']))"
    by (simp only: chunkText_def raw option.case)
  then have "chunkText ''aaaa bbbb'' cfgSmall =
          Some (filter (\<lambda>c. 0 < length (content c))
                  [rawChunk ''aaaa'' 0 0 4, rawChunk ''aabbbb'' 1 4 8])"
    by (simp only: built)
  then have "chunkText ''aaaa bbbb'' cfgSmall = Some [rawChunk ''aaaa'' 0 0 4, rawChunk ''aabbbb'' 1 4 8]"
    by (simp add: rawChunk_def)
  moreover have "validConfig cfgSmall"
    by (simp add: validConfig_def cfgSmall_def)
  moreover have "\<not> int (length (content (rawChunk ''aabbbb'' 1 4 8))) \<le> maxChunkSize cfgSmall"
    by (simp add: rawChunk_def cfgSmall_def)
  ultimately show ?thesis
    using sp acc by blast
qed

section \<open>Chunker: trimmed, non-empty chunks\<close>

text \<open>
  Claim C10. For every text and every valid configuration \<open>chunkText\<close> returns chunks whose
  content is not empty and neither starts nor ends with a whitespace character; a text of
  whitespace only, of any length, gives no chunk; a text no longer than \<open>maxChunkSize\<close> that
  is not blank gives the single chunk of the trimmed text, with the offsets of the whole
  text.
\<close>

theorem chunkText_trimmed:
  assumes "validConfig cfg"
  shows "\<exists>chunks. chunkText str cfg = Some chunks
          \<and> (\<forall>c \<in> set chunks. content c \<noteq> [] \<and> \<not> isWhitespace (hd (content c))
                \<and> \<not> isWhitespace (last (content c)))
          \<and> ((\<forall>ch \<in> set str. isWhitespace ch) \<longrightarrow> chunks = [])
          \<and> (int (length str) \<le> maxChunkSize cfg \<and> trim str \<noteq> [] \<longrightarrow>
                chunks = [rawChunk (trim str) 0 0 (int (length str))])"
proof -
  from chunkText_sound [OF assms, of str "set str"] obtain chunks where
    ch: "chunkText str cfg = Some chunks"
        "\<forall>c \<in> set chunks. content c \<noteq> []
           \<and> (\<exists>s. content c = trim s \<and> int (length s) \<le> maxChunkSize cfg + chunkOverlap cfg
                   \<and> set s \<subseteq> set str)"
    by auto
  have ends: "content c \<noteq> [] \<and> \<not> isWhitespace (hd (content c)) \<and> \<not> isWhitespace (last (content c))"
    if "c \<in> set chunks" for c
  proof -
    from ch(2) that obtain s where "content c \<noteq> []" "content c = trim s" by blast
    with trim_ends [of s] show ?thesis by simp
  qed
  have blank: "chunks = []" if ws: "\<forall>ch \<in> set str. isWhitespace ch"
  proof (rule ccontr)
    assume "chunks \<noteq> []"
    then obtain c where c: "c \<in> set chunks" by (cases chunks) auto
    with ch(2) obtain s where s: "content c \<noteq> []" "content c = trim s" "set s \<subseteq> set str"
      by blast
    from s(3) ws have "\<forall>ch \<in> set s. isWhitespace ch" by blast
    then have "trim s = []" by (rule trim_blank)
    with s(1,2) show False by simp
  qed
  have short: "chunks = [rawChunk (trim str) 0 0 (int (length str))]"
    if "int (length str) \<le> maxChunkSize cfg \<and> trim str \<noteq> []"
    using chunkText_short [of str cfg] that ch(1) by (simp add: rawChunk_def)
  from ch(1) ends blank short show ?thesis by blast
qed

theorem chunkText_trimmed_witness:
  "validConfig cfgSmall
   \<and> chunkText '' hi '' cfgSmall = Some [rawChunk ''hi'' 0 0 4]
   \<and> chunkText (replicate 50 CHR '' '') cfgSmall = Some []"
proof -
  have v: "validConfig cfgSmall"
    by (simp add: validConfig_def cfgSmall_def)
  have tr: "trim '' hi '' = ''hi''"
    by (simp add: trim_def isWhitespace_def)
  from chunkText_trimmed [OF v, of "'' hi ''"] obtain chunks where
    "chunkText '' hi '' cfgSmall = Some chunks"
    "int (length '' hi '') \<le> maxChunkSize cfgSmall \<and> trim '' hi '' \<noteq> [] \<longrightarrow>
       chunks = [rawChunk (trim '' hi '') 0 0 (int (length '' hi ''))]"
    by blast
  then have a: "chunkText '' hi '' cfgSmall = Some [rawChunk ''hi'' 0 0 4]"
    by (simp add: tr cfgSmall_def)
  from chunkText_trimmed [OF v, of "replicate 50 CHR '' ''"] obtain chunks' where
    "chunkText (replicate 50 CHR '' '') cfgSmall = Some chunks'"
    "(\<forall>ch \<in> set (replicate 50 CHR '' ''). isWhitespace ch) \<longrightarrow> chunks' = []"
    by blast
  then have b: "chunkText (replicate 50 CHR '' '') cfgSmall = Some []"
    by (simp add: isWhitespace_def)
  from v a b show ?thesis by blast
qed

section \<open>Chunker: malformed configurations\<close>

text \<open>
  Claim C3, as amended. \<open>chunkText\<close> does not validate its configuration and raises no
  configuration error: with a malformed configuration (\<open>chunkOverlap \<ge> maxChunkSize\<close> or
  \<open>maxChunkSize \<le> 0\<close>) and a text no longer than \<open>maxChunkSize\<close> it returns as it does
  with a valid one, the single chunk of the trimmed text, or no chunk for a blank text.
\<close>

theorem chunkText_no_validation:
  assumes "chunkOverlap cfg \<ge> maxChunkSize cfg \<or> maxChunkSize cfg \<le> 0"
    and "int (length str) \<le> maxChunkSize cfg"
  shows "chunkText str cfg =
           Some (if trim str = [] then [] else [rawChunk (trim str) 0 0 (int (length str))])"
  using chunkText_short [OF assms(2)] by (simp add: rawChunk_def)

theorem chunkText_no_validation_witness:
  "chunkOverlap cfgMalformed \<ge> maxChunkSize cfgMalformed
   \<and> int (length ''hi'') \<le> maxChunkSize cfgMalformed
   \<and> chunkText ''hi'' cfgMalformed = Some [rawChunk ''hi'' 0 0 2]"
proof -
  have m: "chunkOverlap cfgMalformed \<ge> maxChunkSize cfgMalformed"
    and l: "int (length ''hi'') \<le> maxChunkSize cfgMalformed"
    by (simp_all add: cfgMalformed_def)
  have tr: "trim ''hi'' = ''hi''"
    by (simp add: trim_def isWhitespace_def)
  from m have "chunkOverlap cfgMalformed \<ge> maxChunkSize cfgMalformed \<or> maxChunkSize cfgMalformed \<le> 0"
    by simp
  from chunkText_no_validation [OF this l] have "chunkText ''hi'' cfgMalformed = Some [rawChunk ''hi'' 0 0 2]"
    by (simp add: tr)
  with m l show ?thesis by blast
qed

text \<open>
  Claim C3 as stated fails: with \<open>chunkOverlap \<ge> maxChunkSize\<close>, and with
  \<open>maxChunkSize = 0\<close>, \<open>chunkText\<close> returns chunks and no error.
\<close>

theorem chunkText_malformed_counterexample:
  "chunkOverlap cfgMalformed \<ge> maxChunkSize cfgMalformed
   \<and> chunkText ''Hello, world'' cfgMalformed = Some [rawChunk ''Hello, world'' 0 0 12]
   \<and> maxChunkSize (defaultConfig\<lparr>maxChunkSize := 0\<rparr>) \<le> 0
   \<and> chunkText [] (defaultConfig\<lparr>maxChunkSize := 0\<rparr>) = Some []"
proof -
  have tr: "trim ''Hello, world'' = ''Hello, world''" "trim [] = []"
    by (simp_all add: trim_def isWhitespace_def)
  show ?thesis
    by (simp add: chunkText_short tr rawChunk_def cfgMalformed_def)
qed

text \<open>For a longer text without separators the stride of the hard split,
  \<open>maxChunkSize - chunkOverlap\<close>, is not positive and the loop never ends.\<close>

lemma hardSplit_stuck:
  assumes "hardSplit cfg str i result = Some y"
  shows "\<not> (maxChunkSize cfg \<le> chunkOverlap cfg \<and> i < int (length str))"
proof (rule hardSplit.raw_induct
    [where P = "\<lambda>cfg str i result y. \<not> (maxChunkSize cfg \<le> chunkOverlap cfg \<and> i < int (length str))",
     OF _ assms])
  fix loop :: "ChunkConfig \<Rightarrow> string \<Rightarrow> int \<Rightarrow> string list \<Rightarrow> string list option"
  fix cfg' str' i' result' y'
  assume IH: "\<And>cfg str i result y. loop cfg str i result = Some y \<Longrightarrow>
                \<not> (maxChunkSize cfg \<le> chunkOverlap cfg \<and> i < int (length str))"
  assume body: "(if i' < int (length str')
      then loop cfg' str' (i' + (maxChunkSize cfg' - chunkOverlap cfg'))
             (result' @ [slice str' i' (i' + maxChunkSize cfg')])
      else Some result') = Some y'"
  show "\<not> (maxChunkSize cfg' \<le> chunkOverlap cfg' \<and> i' < int (length str'))"
  proof
    assume a: "maxChunkSize cfg' \<le> chunkOverlap cfg' \<and> i' < int (length str')"
    with body have "loop cfg' str' (i' + (maxChunkSize cfg' - chunkOverlap cfg'))
             (result' @ [slice str' i' (i' + maxChunkSize cfg')]) = Some y'"
      by simp
    from IH [OF this] a show False by simp
  qed
qed

lemma chunkText_diverges:
  assumes "maxChunkSize cfg \<le> chunkOverlap cfg"
    and "int (length str) > maxChunkSize cfg" and "str \<noteq> []"
    and "\<forall>sep \<in> set (separators cfg). \<not> set sep \<subseteq> set str"
  shows "chunkText str cfg = None"
proof -
  have "hardSplit cfg str 0 [] = None"
  proof (cases "hardSplit cfg str 0 []")
    case None
    then show ?thesis .
  next
    case (Some y)
    from hardSplit_stuck [OF this] assms(1,3) show ?thesis by simp
  qed
  with splitRecursively_no_separator [OF assms(4,2)] show ?thesis
    by (simp add: chunkText_def)
qed

lemma chunkText_diverges_example: "chunkText ''aaaaaaaaaaaaaaaaaaaaaaaaa'' cfgMalformed = None"
  by (rule chunkText_diverges) (simp_all add: cfgMalformed_def defaultConfig_def newline_def)

end
